theory Spec2Isabelle
  imports Main "HOL-Library.AList"
begin

unbundle bit_operations_syntax

section \<open>Configuration (simulator.py, lines 4-10 and 32-35)\<close>

definition MEMORY_SIZE :: int where "MEMORY_SIZE = 65536"
definition PAGE_SIZE :: int where "PAGE_SIZE = 256"
definition TLB_SIZE :: int where "TLB_SIZE = 16"
definition CACHE_SIZE :: int where "CACHE_SIZE = 64"
definition CACHE_LINE_SIZE :: int where "CACHE_LINE_SIZE = 8"
definition NUM_PAGES :: int where "NUM_PAGES = MEMORY_SIZE div PAGE_SIZE"

text \<open>Python's \<^verbatim>\<open>int.bit_length\<close>: the number of binary digits of the absolute value.\<close>

fun nat_bit_length :: "nat \<Rightarrow> nat" where
  "nat_bit_length n = (if n = 0 then 0 else Suc (nat_bit_length (n div 2)))"

declare nat_bit_length.simps [simp del]

definition bit_length :: "int \<Rightarrow> nat" where
  "bit_length k = nat_bit_length (nat \<bar>k\<bar>)"

definition CACHE_OFFSET_BITS :: nat where
  "CACHE_OFFSET_BITS = bit_length (CACHE_LINE_SIZE - 1)"
definition CACHE_INDEX_BITS :: nat where
  "CACHE_INDEX_BITS = bit_length (CACHE_SIZE - 1)"
definition CACHE_TAG_BITS :: nat where
  "CACHE_TAG_BITS = 16 - CACHE_INDEX_BITS - CACHE_OFFSET_BITS"

section \<open>Data structures (simulator.py, lines 12-30)\<close>

text \<open>
  Python integers are unbounded: addresses, page and frame numbers, bytes and counters are
  \<^typ>\<open>int\<close>. A \<^verbatim>\<open>bytearray\<close> is a list of bytes; a \<^verbatim>\<open>dict\<close> is an association
  list in insertion order (\<^const>\<open>AList.update\<close> overwrites in place or appends,
  \<^const>\<open>AList.delete\<close> removes the key); the \<^verbatim>\<open>deque\<close> is a list with its left end
  first.
\<close>

datatype error = IndexError | KeyError

record cache_line =
  line_tag :: int
  line_data :: "int list"
  line_valid :: bool
  line_dirty :: bool

record stats =
  tlb_hits :: int
  tlb_misses :: int
  cache_hits :: int
  cache_misses :: int
  page_faults :: int
  total_accesses :: int

record state =
  main_memory :: "int list"
  page_table :: "(int \<times> int) list"
  tlb :: "(int \<times> int) list"
  tlb_queue :: "int list"
  cache :: "cache_line list"
  stats :: stats

text \<open>
  The trace strings of \<^verbatim>\<open>translate_address\<close> are kept as the events they render,
  with the numbers each f-string formats.
\<close>

datatype log_entry =
    TLB_HIT int int
  | TLB_MISS int
  | PAGE_TABLE_HIT int
  | PAGE_FAULT int int
  | TLB_UPDATE int int
  | PHYSICAL_ADDRESS int
  | CACHE_HIT int
  | CACHE_MISS int

record translation_result =
  res_virtual_addr :: int
  res_physical_addr :: int
  res_value :: int
  res_page_num :: int
  res_frame_num :: int
  res_tlb_hit :: bool
  res_cache_hit :: bool
  res_log :: "log_entry list"

section \<open>Python sequences\<close>

text \<open>
  Indexing a sequence of length \<open>n\<close> with \<open>i\<close>: indices \<open>0 \<le> i < n\<close> are taken as they
  are, \<open>-n \<le> i < 0\<close> count from the end, anything else raises IndexError (\<open>None\<close>).
\<close>

definition py_index :: "nat \<Rightarrow> int \<Rightarrow> nat option" where
  "py_index n i =
     (if 0 \<le> i \<and> i < int n then Some (nat i)
      else if - int n \<le> i \<and> i < 0 then Some (nat (int n + i))
      else None)"

text \<open>\<^verbatim>\<open>range(n)\<close>\<close>

definition py_range :: "int \<Rightarrow> int list" where
  "py_range n = map int [0..<nat n]"

section \<open>Cache calculations (simulator.py, lines 37-42)\<close>

definition get_cache_components :: "int \<Rightarrow> int \<times> int \<times> int" where
  "get_cache_components physical_addr =
     (let index = (drop_bit CACHE_OFFSET_BITS physical_addr) AND (CACHE_SIZE - 1);
          tag = drop_bit (CACHE_OFFSET_BITS + CACHE_INDEX_BITS) physical_addr;
          offset = physical_addr AND (CACHE_LINE_SIZE - 1)
      in (tag, index, offset))"

section \<open>Core functions (simulator.py, lines 45-150)\<close>

text \<open>
  Every function takes the module state and returns its result, or the exception it
  raises, together with the state it leaves behind: an exception does not undo the
  assignments made before it.
\<close>

text \<open>The loop of \<^verbatim>\<open>handle_page_fault\<close> (lines 55-56) over the remaining values of \<open>i\<close>.\<close>

fun page_fill_loop :: "int \<Rightarrow> int \<Rightarrow> int list \<Rightarrow> int list \<Rightarrow> error option \<times> int list" where
  "page_fill_loop start_addr page_num [] mem = (None, mem)"
| "page_fill_loop start_addr page_num (i # rest) mem =
     (case py_index (length mem) (start_addr + i) of
        None \<Rightarrow> (Some IndexError, mem)
      | Some k \<Rightarrow> page_fill_loop start_addr page_num rest (mem[k := (page_num + i) mod 256]))"

definition handle_page_fault :: "int \<Rightarrow> state \<Rightarrow> (error + int) \<times> state" where
  "handle_page_fault page_num s0 =
     (let s = s0\<lparr>stats := (stats s0)\<lparr>page_faults := page_faults (stats s0) + 1\<rparr>\<rparr>;
          frame_num = int (length (page_table s)) mod NUM_PAGES;
          start_addr = frame_num * PAGE_SIZE
      in case page_fill_loop start_addr page_num (py_range PAGE_SIZE) (main_memory s) of
           (Some e, mem) \<Rightarrow> (Inl e, s\<lparr>main_memory := mem\<rparr>)
         | (None, mem) \<Rightarrow>
             (Inr frame_num,
              s\<lparr>main_memory := mem,
                page_table := AList.update page_num frame_num (page_table s)\<rparr>))"

definition update_tlb :: "int \<Rightarrow> int \<Rightarrow> state \<Rightarrow> (error + unit) \<times> state" where
  "update_tlb page_num frame_num s =
     (if map_of (tlb s) page_num \<noteq> None then (Inr (), s)
      else if int (length (tlb s)) \<ge> TLB_SIZE then
        (case tlb_queue s of
           [] \<Rightarrow> (Inl IndexError, s)
         | oldest_page # rest \<Rightarrow>
             (let s1 = s\<lparr>tlb_queue := rest\<rparr> in
              if map_of (tlb s1) oldest_page = None then (Inl KeyError, s1)
              else
                (let s2 = s1\<lparr>tlb := AList.delete oldest_page (tlb s1)\<rparr> in
                 (Inr (), s2\<lparr>tlb := AList.update page_num frame_num (tlb s2),
                             tlb_queue := tlb_queue s2 @ [page_num]\<rparr>))))
      else
        (Inr (), s\<lparr>tlb := AList.update page_num frame_num (tlb s),
                    tlb_queue := tlb_queue s @ [page_num]\<rparr>))"

text \<open>The loop of \<^verbatim>\<open>access_cache\<close> (lines 88-89) over the remaining values of \<open>i\<close>.\<close>

fun cache_fill_loop :: "int \<Rightarrow> int list \<Rightarrow> int list \<Rightarrow> int list \<Rightarrow> error option \<times> int list" where
  "cache_fill_loop block_start mem [] dat = (None, dat)"
| "cache_fill_loop block_start mem (i # rest) dat =
     (case py_index (length mem) (block_start + i) of
        None \<Rightarrow> (Some IndexError, dat)
      | Some k \<Rightarrow>
          (case py_index (length dat) i of
             None \<Rightarrow> (Some IndexError, dat)
           | Some j \<Rightarrow> cache_fill_loop block_start mem rest (dat[j := mem ! k])))"

definition access_cache :: "int \<Rightarrow> state \<Rightarrow> (error + int \<times> bool) \<times> state" where
  "access_cache physical_addr s =
     (case get_cache_components physical_addr of (tag, index, offset) \<Rightarrow>
      case py_index (length (cache s)) index of
        None \<Rightarrow> (Inl IndexError, s)
      | Some n \<Rightarrow>
          (let cache_line = cache s ! n in
           if line_valid cache_line \<and> line_tag cache_line = tag then
             (let s1 = s\<lparr>stats := (stats s)\<lparr>cache_hits := cache_hits (stats s) + 1\<rparr>\<rparr> in
              case py_index (length (line_data cache_line)) offset of
                None \<Rightarrow> (Inl IndexError, s1)
              | Some j \<Rightarrow> (Inr (line_data cache_line ! j, True), s1))
           else
             (let s1 = s\<lparr>stats := (stats s)\<lparr>cache_misses := cache_misses (stats s) + 1\<rparr>\<rparr>;
                  block_start = physical_addr AND NOT (CACHE_LINE_SIZE - 1)
              in case cache_fill_loop block_start (main_memory s1) (py_range CACHE_LINE_SIZE)
                        (line_data cache_line) of
                   (Some e, dat) \<Rightarrow>
                     (Inl e, s1\<lparr>cache := (cache s1)[n := cache_line\<lparr>line_data := dat\<rparr>]\<rparr>)
                 | (None, dat) \<Rightarrow>
                     (let filled = cache_line\<lparr>line_data := dat, line_tag := tag,
                                              line_valid := True, line_dirty := False\<rparr>;
                          s2 = s1\<lparr>cache := (cache s1)[n := filled]\<rparr>
                      in case py_index (length dat) offset of
                           None \<Rightarrow> (Inl IndexError, s2)
                         | Some j \<Rightarrow> (Inr (dat ! j, False), s2)))))"

text \<open>
  Steps 1 and 2 of \<^verbatim>\<open>translate_address\<close> (lines 108-128): the frame number, the
  \<^verbatim>\<open>tlb_hit\<close> flag and the trace so far.
\<close>

definition lookup_frame :: "int \<Rightarrow> state \<Rightarrow> (error + int \<times> bool \<times> log_entry list) \<times> state" where
  "lookup_frame page_num s =
     (case map_of (tlb s) page_num of
        Some frame_num \<Rightarrow>
          (Inr (frame_num, True, [TLB_HIT page_num frame_num]),
           s\<lparr>stats := (stats s)\<lparr>tlb_hits := tlb_hits (stats s) + 1\<rparr>\<rparr>)
      | None \<Rightarrow>
          (let s1 = s\<lparr>stats := (stats s)\<lparr>tlb_misses := tlb_misses (stats s) + 1\<rparr>\<rparr>;
               (r, s2) =
                 (case map_of (page_table s1) page_num of
                    Some frame_num \<Rightarrow> (Inr (frame_num, [PAGE_TABLE_HIT frame_num]), s1)
                  | None \<Rightarrow>
                      (case handle_page_fault page_num s1 of
                         (Inl e, s') \<Rightarrow> (Inl e, s')
                       | (Inr frame_num, s') \<Rightarrow>
                           (Inr (frame_num, [PAGE_FAULT page_num frame_num]), s')))
           in case r of
                Inl e \<Rightarrow> (Inl e, s2)
              | Inr (frame_num, entry) \<Rightarrow>
                  (case update_tlb page_num frame_num s2 of
                     (Inl e, s3) \<Rightarrow> (Inl e, s3)
                   | (Inr u, s3) \<Rightarrow>
                       (Inr (frame_num, False,
                             [TLB_MISS page_num] @ entry @ [TLB_UPDATE page_num frame_num]),
                        s3))))"

definition translate_address :: "int \<Rightarrow> state \<Rightarrow> (error + translation_result) \<times> state" where
  "translate_address virtual_addr s0 =
     (let s = s0\<lparr>stats := (stats s0)\<lparr>total_accesses := total_accesses (stats s0) + 1\<rparr>\<rparr>;
          page_num = (drop_bit 8 virtual_addr) AND 255;
          offset = virtual_addr AND 255
      in case lookup_frame page_num s of
           (Inl e, s1) \<Rightarrow> (Inl e, s1)
         | (Inr (frame_num, tlb_hit, log_entries), s1) \<Rightarrow>
             (let physical_addr = (frame_num * PAGE_SIZE) + offset in
              case access_cache physical_addr s1 of
                (Inl e, s2) \<Rightarrow> (Inl e, s2)
              | (Inr (val, cache_hit), s2) \<Rightarrow>
                  (Inr \<lparr>res_virtual_addr = virtual_addr,
                        res_physical_addr = physical_addr,
                        res_value = val,
                        res_page_num = page_num,
                        res_frame_num = frame_num,
                        res_tlb_hit = tlb_hit,
                        res_cache_hit = cache_hit,
                        res_log = log_entries @ [PHYSICAL_ADDRESS physical_addr]
                          @ [if cache_hit then CACHE_HIT val else CACHE_MISS val]\<rparr>,
                   s2)))"

section \<open>Reset (simulator.py, lines 169-182)\<close>

text \<open>
  \<open>rnd i\<close> is the \<open>i\<close>-th value that \<^verbatim>\<open>random.randint(0, 255)\<close> returns while the
  memory is drawn.
\<close>

definition random_memory :: "(nat \<Rightarrow> int) \<Rightarrow> int list" where
  "random_memory rnd = map rnd [0..<nat MEMORY_SIZE]"

definition empty_line :: cache_line where
  "empty_line = \<lparr>line_tag = - 1, line_data = replicate (nat CACHE_LINE_SIZE) 0,
                 line_valid = False, line_dirty = False\<rparr>"

definition reset_simulator :: "(nat \<Rightarrow> int) \<Rightarrow> state" where
  "reset_simulator rnd =
     \<lparr>main_memory = random_memory rnd,
      page_table = [],
      tlb = [],
      tlb_queue = [],
      cache = replicate (nat CACHE_SIZE) empty_line,
      stats = \<lparr>tlb_hits = 0, tlb_misses = 0, cache_hits = 0,
               cache_misses = 0, page_faults = 0, total_accesses = 0\<rparr>\<rparr>"

section \<open>Runs\<close>

text \<open>The state after a sequence of \<^verbatim>\<open>translate_address\<close> calls.\<close>

fun run :: "int list \<Rightarrow> state \<Rightarrow> state" where
  "run [] s = s"
| "run (v # vs) s = run vs (snd (translate_address v s))"

datatype operation = Translate int | Reset "nat \<Rightarrow> int"

fun exec :: "operation \<Rightarrow> state \<Rightarrow> state" where
  "exec (Translate v) s = snd (translate_address v s)"
| "exec (Reset rnd) s = reset_simulator rnd"

fun exec_all :: "operation list \<Rightarrow> state \<Rightarrow> state" where
  "exec_all [] s = s"
| "exec_all (x # xs) s = exec_all xs (exec x s)"

text \<open>The state after a sequence of direct \<^verbatim>\<open>handle_page_fault\<close> calls.\<close>

fun fault_all :: "int list \<Rightarrow> state \<Rightarrow> state" where
  "fault_all [] s = s"
| "fault_all (p # ps) s = fault_all ps (snd (handle_page_fault p s))"

text \<open>The state after a sequence of direct \<^verbatim>\<open>update_tlb\<close> calls, up to the first exception.\<close>

fun update_tlb_all :: "(int \<times> int) list \<Rightarrow> state \<Rightarrow> error option \<times> state" where
  "update_tlb_all [] s = (None, s)"
| "update_tlb_all ((page_num, frame_num) # rest) s =
     (case update_tlb page_num frame_num s of
        (Inl e, s') \<Rightarrow> (Some e, s')
      | (Inr u, s') \<Rightarrow> update_tlb_all rest s')"

section \<open>Notions of the specification\<close>

text \<open>The \<^const>\<open>CACHE_LINE_SIZE\<close> bytes of a memory from position \<open>start\<close> on.\<close>

definition memory_block :: "int list \<Rightarrow> nat \<Rightarrow> int list" where
  "memory_block mem start = take (nat CACHE_LINE_SIZE) (drop start mem)"

text \<open>
  The physical address of the first byte of the block that a line at position \<open>index\<close>
  with tag \<open>tag\<close> stands for: the tag in the bits above the index bits, the index in the
  bits above the offset bits.
\<close>

definition block_address :: "int \<Rightarrow> int \<Rightarrow> int" where
  "block_address tag index =
     push_bit (CACHE_OFFSET_BITS + CACHE_INDEX_BITS) tag + push_bit CACHE_OFFSET_BITS index"

text \<open>The sizes that initialisation gives the memory, the cache and its lines.\<close>

definition shape_ok :: "state \<Rightarrow> bool" where
  "shape_ok s \<longleftrightarrow>
     length (main_memory s) = nat MEMORY_SIZE \<and>
     length (cache s) = nat CACHE_SIZE \<and>
     (\<forall>l\<in>set (cache s). length (line_data l) = nat CACHE_LINE_SIZE)"

text \<open>
  The page table of a run: its keys are distinct page numbers below 256 and the \<open>k\<close>-th
  page that faulted has frame \<open>k\<close>.
\<close>

definition page_table_ok :: "(int \<times> int) list \<Rightarrow> bool" where
  "page_table_ok pt \<longleftrightarrow>
     distinct (map fst pt) \<and>
     (\<forall>p\<in>set (map fst pt). 0 \<le> p \<and> p < 256) \<and>
     map snd pt = map int [0..<length pt]"

text \<open>The TLB and its queue: the queue lists the keys of the TLB, oldest first.\<close>

definition tlb_ok :: "state \<Rightarrow> bool" where
  "tlb_ok s \<longleftrightarrow>
     tlb_queue s = map fst (tlb s) \<and> distinct (tlb_queue s) \<and> int (length (tlb s)) \<le> TLB_SIZE"

text \<open>
  A valid line holds the block of memory at its address, and that block lies in a frame
  that has been handed out.
\<close>

definition cache_ok :: "state \<Rightarrow> bool" where
  "cache_ok s \<longleftrightarrow>
     (\<forall>n<length (cache s). line_valid (cache s ! n) \<longrightarrow>
        0 \<le> line_tag (cache s ! n) \<and>
        block_address (line_tag (cache s ! n)) (int n) < PAGE_SIZE * int (length (page_table s)) \<and>
        line_data (cache s ! n) =
          memory_block (main_memory s) (nat (block_address (line_tag (cache s ! n)) (int n))))"

definition sim_inv :: "state \<Rightarrow> bool" where
  "sim_inv s \<longleftrightarrow>
     shape_ok s \<and> page_table_ok (page_table s) \<and> tlb_ok s \<and>
     set (tlb s) \<subseteq> set (page_table s) \<and> cache_ok s"

text \<open>No counter of \<open>a\<close> is above the same counter of \<open>b\<close>.\<close>

definition stats_le :: "stats \<Rightarrow> stats \<Rightarrow> bool" where
  "stats_le a b \<longleftrightarrow>
     tlb_hits a \<le> tlb_hits b \<and> tlb_misses a \<le> tlb_misses b \<and>
     cache_hits a \<le> cache_hits b \<and> cache_misses a \<le> cache_misses b \<and>
     page_faults a \<le> page_faults b \<and> total_accesses a \<le> total_accesses b"

text \<open>
  The state with further bytes behind its memory. A run of the code on it goes as on the
  state itself exactly when it uses no memory index outside the memory proper: an index
  beyond the end no longer raises, and a negative index, which Python counts from the end,
  now reaches the further bytes.
\<close>

definition extend_memory :: "int list \<Rightarrow> state \<Rightarrow> state" where
  "extend_memory ext s = s\<lparr>main_memory := main_memory s @ ext\<rparr>"

section \<open>Constants\<close>

lemma CACHE_OFFSET_BITS_eq: "CACHE_OFFSET_BITS = 3"
  by (simp add: CACHE_OFFSET_BITS_def bit_length_def CACHE_LINE_SIZE_def nat_bit_length.simps)

lemma CACHE_INDEX_BITS_eq: "CACHE_INDEX_BITS = 6"
  by (simp add: CACHE_INDEX_BITS_def bit_length_def CACHE_SIZE_def nat_bit_length.simps)

lemma NUM_PAGES_eq: "NUM_PAGES = 256"
  by (simp add: NUM_PAGES_def MEMORY_SIZE_def PAGE_SIZE_def)

lemmas size_defs = MEMORY_SIZE_def PAGE_SIZE_def TLB_SIZE_def CACHE_SIZE_def CACHE_LINE_SIZE_def NUM_PAGES_eq

lemma and_not_mask_int: "(k::int) AND NOT (mask n) = push_bit n (drop_bit n k)"
  by (rule bit_eqI) (auto simp add: bit_simps)

lemma and_not_7: "(pa::int) AND NOT 7 = 8 * (pa div 8)"
  using and_not_mask_int[of pa 3] by (simp add: mask_eq_exp_minus_1 push_bit_eq_mult drop_bit_eq_div)

lemma and_7: "(pa::int) AND 7 = pa mod 8"
  using take_bit_eq_mask[of 3 pa] by (simp add: take_bit_eq_mod mask_eq_exp_minus_1)

lemma and_255: "(pa::int) AND 255 = pa mod 256"
  using take_bit_eq_mask[of 8 pa] by (simp add: take_bit_eq_mod mask_eq_exp_minus_1)

lemma and_63: "(pa::int) AND 63 = pa mod 64"
  using take_bit_eq_mask[of 6 pa] by (simp add: take_bit_eq_mod mask_eq_exp_minus_1)

lemma get_cache_components_eq:
  "get_cache_components pa = (pa div 512, (pa div 8) mod 64, pa mod 8)"
  by (simp add: get_cache_components_def CACHE_OFFSET_BITS_eq CACHE_INDEX_BITS_eq CACHE_SIZE_def CACHE_LINE_SIZE_def and_7 and_63 drop_bit_eq_div)

lemma block_start_eq: "pa AND NOT (CACHE_LINE_SIZE - 1) = 8 * (pa div 8)"
  using and_not_7[of pa] by (simp add: CACHE_LINE_SIZE_def)

lemma block_address_eq: "block_address t i = t * 512 + i * 8"
  by (simp add: block_address_def CACHE_OFFSET_BITS_eq CACHE_INDEX_BITS_eq push_bit_eq_mult)

lemma block_address_components:
  "block_address (pa div 512) ((pa div 8) mod 64) = 8 * (pa div 8)"
proof -
  have "pa div 512 = (pa div 8) div 64" by (simp add: zdiv_zmult2_eq)
  then show ?thesis unfolding block_address_eq by presburger
qed

lemma py_index_nonneg: "0 \<le> i \<Longrightarrow> i < int n \<Longrightarrow> py_index n i = Some (nat i)"
  by (simp add: py_index_def)

lemma set_py_range: "set (py_range n) = {i. 0 \<le> i \<and> i < n}"
proof -
  have "i \<in> int ` {0..<nat n} \<longleftrightarrow> 0 \<le> i \<and> i < n" for i
  proof
    assume "i \<in> int ` {0..<nat n}" then show "0 \<le> i \<and> i < n" by auto
  next
    assume h: "0 \<le> i \<and> i < n"
    then have "nat i \<in> {0..<nat n}" by auto
    moreover have "i = int (nat i)" using h by simp
    ultimately show "i \<in> int ` {0..<nat n}" by (rule_tac image_eqI)
  qed
  then show ?thesis by (auto simp add: py_range_def)
qed

lemma page_fill_loop_ok:
  "\<forall>i\<in>set is. 0 \<le> start + i \<and> start + i < int (length mem) \<Longrightarrow>
   \<exists>mem'. page_fill_loop start p is mem = (None, mem') \<and> length mem' = length mem \<and>
     (\<forall>j<length mem. mem' ! j =
        (if int j - start \<in> set is then (p + (int j - start)) mod 256 else mem ! j))"
proof (induction "is" arbitrary: mem)
  case Nil
  then show ?case by simp
next
  case (Cons i rest)
  let ?k = "nat (start + i)"
  let ?m1 = "mem[?k := (p + i) mod 256]"
  have k: "py_index (length mem) (start + i) = Some ?k"
    using Cons.prems by (simp add: py_index_nonneg)
  have "\<forall>i\<in>set rest. 0 \<le> start + i \<and> start + i < int (length ?m1)"
    using Cons.prems by simp
  from Cons.IH[OF this] obtain mem' where
    m: "page_fill_loop start p rest ?m1 = (None, mem')" "length mem' = length mem"
       "\<forall>j<length ?m1. mem' ! j =
          (if int j - start \<in> set rest then (p + (int j - start)) mod 256 else ?m1 ! j)"
    by auto
  have "mem' ! j = (if int j - start \<in> set (i # rest) then (p + (int j - start)) mod 256 else mem ! j)"
    if "j < length mem" for j
  proof (cases "j = ?k")
    case True
    then have "int j - start = i" using Cons.prems by simp
    then show ?thesis using m(3) that True by simp
  next
    case False
    then have "int j - start \<noteq> i" using Cons.prems by auto
    then show ?thesis using m(3) that False by simp
  qed
  then show ?case using k m(1,2) by simp
qed

lemma cache_fill_loop_ok:
  "\<forall>i\<in>set is. 0 \<le> bs + i \<and> bs + i < int (length mem) \<and> 0 \<le> i \<and> i < int (length dat) \<Longrightarrow>
   \<exists>dat'. cache_fill_loop bs mem is dat = (None, dat') \<and> length dat' = length dat \<and>
     (\<forall>j<length dat. dat' ! j = (if int j \<in> set is then mem ! nat (bs + int j) else dat ! j))"
proof (induction "is" arbitrary: dat)
  case Nil
  then show ?case by simp
next
  case (Cons i rest)
  let ?d1 = "dat[nat i := mem ! nat (bs + i)]"
  have k: "py_index (length mem) (bs + i) = Some (nat (bs + i))"
          "py_index (length dat) i = Some (nat i)"
    using Cons.prems by (simp_all add: py_index_nonneg)
  have "\<forall>i\<in>set rest. 0 \<le> bs + i \<and> bs + i < int (length mem) \<and> 0 \<le> i \<and> i < int (length ?d1)"
    using Cons.prems by simp
  from Cons.IH[OF this] obtain dat' where
    d: "cache_fill_loop bs mem rest ?d1 = (None, dat')" "length dat' = length dat"
       "\<forall>j<length ?d1. dat' ! j = (if int j \<in> set rest then mem ! nat (bs + int j) else ?d1 ! j)"
    by auto
  have "dat' ! j = (if int j \<in> set (i # rest) then mem ! nat (bs + int j) else dat ! j)"
    if "j < length dat" for j
  proof (cases "j = nat i")
    case True
    then have "int j = i" using Cons.prems by simp
    then show ?thesis using d(3) that True by auto
  next
    case False
    then have "int j \<noteq> i" by auto
    then show ?thesis using d(3) that False by simp
  qed
  then show ?case using k d(1,2) by simp
qed

lemma handle_page_fault_ok:
  assumes "length (main_memory s) = nat MEMORY_SIZE"
  defines "f \<equiv> int (length (page_table s)) mod 256"
  shows "\<exists>mem'. handle_page_fault p s =
           (Inr f, s\<lparr>stats := (stats s)\<lparr>page_faults := page_faults (stats s) + 1\<rparr>,
                     main_memory := mem',
                     page_table := AList.update p f (page_table s)\<rparr>) \<and>
           length mem' = nat MEMORY_SIZE \<and>
           (\<forall>j<length mem'. mem' ! j =
              (if f * 256 \<le> int j \<and> int j < f * 256 + 256 then (p + (int j - f * 256)) mod 256
               else main_memory s ! j))"
proof -
  have f: "0 \<le> f" "f < 256" by (simp_all add: f_def)
  have "\<forall>i\<in>set (py_range PAGE_SIZE). 0 \<le> f * 256 + i \<and> f * 256 + i < int (length (main_memory s))"
    using f assms(1) by (auto simp add: set_py_range size_defs)
  from page_fill_loop_ok[OF this, of p] obtain mem' where
    m: "page_fill_loop (f * 256) p (py_range PAGE_SIZE) (main_memory s) = (None, mem')"
       "length mem' = length (main_memory s)"
       "\<forall>j<length (main_memory s). mem' ! j =
          (if int j - f * 256 \<in> set (py_range PAGE_SIZE) then (p + (int j - f * 256)) mod 256
           else main_memory s ! j)"
    by blast
  have A: "handle_page_fault p s =
           (Inr f, s\<lparr>stats := (stats s)\<lparr>page_faults := page_faults (stats s) + 1\<rparr>,
                     main_memory := mem',
                     page_table := AList.update p f (page_table s)\<rparr>)"
    using m(1) by (simp add: handle_page_fault_def Let_def f_def size_defs)
  have B: "\<forall>j<length mem'. mem' ! j =
              (if f * 256 \<le> int j \<and> int j < f * 256 + 256 then (p + (int j - f * 256)) mod 256
               else main_memory s ! j)"
  proof (intro allI impI)
    fix j assume j: "j < length mem'"
    have jl: "j < length (main_memory s)" using j m(2) by simp
    have eq: "(int j - f * 256 \<in> set (py_range PAGE_SIZE)) = (f * 256 \<le> int j \<and> int j < f * 256 + 256)"
      by (auto simp add: set_py_range PAGE_SIZE_def)
    show "mem' ! j =
              (if f * 256 \<le> int j \<and> int j < f * 256 + 256 then (p + (int j - f * 256)) mod 256
               else main_memory s ! j)"
      using m(3)[rule_format, OF jl] by (simp only: eq)
  qed
  have C: "length mem' = nat MEMORY_SIZE" using m(2) assms(1) by simp
  show ?thesis by (rule exI[of _ mem'], intro conjI, rule A, rule C, rule B)
qed

lemma cache_fill_block:
  assumes "0 \<le> bs" "bs + 8 \<le> int (length mem)" "length dat = 8"
  shows "cache_fill_loop bs mem (py_range CACHE_LINE_SIZE) dat = (None, memory_block mem (nat bs))"
proof -
  have "\<forall>i\<in>set (py_range CACHE_LINE_SIZE).
          0 \<le> bs + i \<and> bs + i < int (length mem) \<and> 0 \<le> i \<and> i < int (length dat)"
    using assms by (auto simp add: set_py_range size_defs)
  from cache_fill_loop_ok[OF this] obtain dat' where
    d: "cache_fill_loop bs mem (py_range CACHE_LINE_SIZE) dat = (None, dat')"
       "length dat' = length dat"
       "\<forall>j<length dat. dat' ! j =
          (if int j \<in> set (py_range CACHE_LINE_SIZE) then mem ! nat (bs + int j) else dat ! j)"
    by blast
  have len: "nat bs + 8 \<le> length mem" using assms(1,2) by linarith
  have "dat' = memory_block mem (nat bs)"
  proof (rule nth_equalityI)
    show "length dat' = length (memory_block mem (nat bs))"
      using d(2) assms(3) len by (simp add: memory_block_def size_defs)
  next
    fix j assume "j < length dat'"
    then have j: "j < 8" using d(2) assms(3) by simp
    then have "dat' ! j = mem ! nat (bs + int j)"
      using d(3) assms(3) by (simp add: set_py_range size_defs)
    also have "nat (bs + int j) = nat bs + j" using assms(1) by (simp add: nat_add_distrib)
    finally show "dat' ! j = memory_block mem (nat bs) ! j"
      using j len by (simp add: memory_block_def size_defs)
  qed
  then show ?thesis using d(1) by simp
qed

lemma memory_block_nth:
  "start + 8 \<le> length mem \<Longrightarrow> j < 8 \<Longrightarrow> memory_block mem start ! j = mem ! (start + j)"
  by (simp add: memory_block_def CACHE_LINE_SIZE_def)

lemma memory_block_length:
  "start + 8 \<le> length mem \<Longrightarrow> length (memory_block mem start) = 8"
  by (simp add: memory_block_def CACHE_LINE_SIZE_def)

lemma access_cache_miss:
  assumes pa: "0 \<le> pa" "pa < MEMORY_SIZE"
    and mem: "length (main_memory s) = nat MEMORY_SIZE"
    and c: "length (cache s) = nat CACHE_SIZE"
    and d: "length (line_data (cache s ! nat ((pa div 8) mod 64))) = nat CACHE_LINE_SIZE"
    and miss: "\<not> (line_valid (cache s ! nat ((pa div 8) mod 64)) \<and>
                  line_tag (cache s ! nat ((pa div 8) mod 64)) = pa div 512)"
  shows "access_cache pa s =
           (Inr (main_memory s ! nat pa, False),
            s\<lparr>stats := (stats s)\<lparr>cache_misses := cache_misses (stats s) + 1\<rparr>,
              cache := (cache s)[nat ((pa div 8) mod 64) :=
                 \<lparr>line_tag = pa div 512,
                  line_data = memory_block (main_memory s) (8 * (nat pa div 8)),
                  line_valid = True, line_dirty = False\<rparr>]\<rparr>)"
proof -
  let ?n = "nat ((pa div 8) mod 64)"
  let ?bs = "8 * (pa div 8)"
  let ?blk = "memory_block (main_memory s) (8 * (nat pa div 8))"
  have idx: "py_index (length (cache s)) ((pa div 8) mod 64) = Some ?n"
    using c by (simp add: py_index_nonneg size_defs)
  have bs: "0 \<le> ?bs" "?bs + 8 \<le> int (length (main_memory s))"
    using pa mem by (simp_all add: size_defs)
  have nb: "nat ?bs = 8 * (nat pa div 8)"
    using pa by (simp add: nat_mult_distrib nat_div_distrib)
  have "int (nat ?bs) = ?bs" using bs(1) by simp
  then have "int (8 * (nat pa div 8)) = ?bs" by (simp only: nb)
  then have len: "8 * (nat pa div 8) + 8 \<le> length (main_memory s)"
    using bs(2) by linarith
  have fill: "cache_fill_loop ?bs (main_memory s) (py_range CACHE_LINE_SIZE)
                (line_data (cache s ! ?n)) = (None, ?blk)"
    using cache_fill_block[OF bs] d nb by (simp add: size_defs)
  have off: "py_index (length ?blk) (pa mod 8) = Some (nat (pa mod 8))"
    using memory_block_length[OF len] by (simp add: py_index_nonneg)
  have "8 * (nat pa div 8) + nat (pa mod 8) = nat pa"
    using pa by (simp add: nat_mod_distrib) 
  moreover have "nat (pa mod 8) < 8" by simp
  ultimately have v: "?blk ! nat (pa mod 8) = main_memory s ! nat pa"
    using memory_block_nth[OF len, of "nat (pa mod 8)"] by simp
  have upd: "(cache s ! ?n)\<lparr>line_data := ?blk,
               line_tag := pa div 512, line_valid := True, line_dirty := False\<rparr> =
             \<lparr>line_tag = pa div 512, line_data = ?blk,
              line_valid = True, line_dirty = False\<rparr>"
    by simp
  show ?thesis
    by (simp add: access_cache_def get_cache_components_eq Let_def block_start_eq idx if_not_P[OF miss] fill off v upd)
qed

lemma access_cache_hit:
  assumes c: "length (cache s) = nat CACHE_SIZE"
    and d: "length (line_data (cache s ! nat ((pa div 8) mod 64))) = nat CACHE_LINE_SIZE"
    and hit: "line_valid (cache s ! nat ((pa div 8) mod 64)) \<and>
              line_tag (cache s ! nat ((pa div 8) mod 64)) = pa div 512"
  shows "access_cache pa s =
           (Inr (line_data (cache s ! nat ((pa div 8) mod 64)) ! nat (pa mod 8), True),
            s\<lparr>stats := (stats s)\<lparr>cache_hits := cache_hits (stats s) + 1\<rparr>\<rparr>)"
proof -
  let ?n = "nat ((pa div 8) mod 64)"
  have idx: "py_index (length (cache s)) ((pa div 8) mod 64) = Some ?n"
    using c by (simp add: py_index_nonneg size_defs)
  have off: "py_index (length (line_data (cache s ! ?n))) (pa mod 8) = Some (nat (pa mod 8))"
    using d by (simp add: py_index_nonneg size_defs)
  show ?thesis
    by (simp add: access_cache_def get_cache_components_eq Let_def idx if_P[OF hit] off)
qed

subsection \<open>Association lists\<close>

lemma update_fresh: "k \<notin> fst ` set al \<Longrightarrow> AList.update k v al = al @ [(k, v)]"
  by (induction al) auto

lemma delete_fresh: "k \<notin> fst ` set al \<Longrightarrow> AList.delete k al = al"
  by (induction al) auto

lemma map_of_None_fresh: "map_of al k = None \<Longrightarrow> k \<notin> fst ` set al"
  by (simp add: map_of_eq_None_iff)

subsection \<open>The page table\<close>

lemma page_table_ok_nth:
  assumes "page_table_ok pt" "i < length pt"
  shows "snd (pt ! i) = int i"
proof -
  have "map snd pt ! i = map int [0..<length pt] ! i"
    using assms(1) by (simp add: page_table_ok_def)
  then show ?thesis using assms(2) by simp
qed

lemma page_table_ok_frame:
  assumes "page_table_ok pt" "(p, f) \<in> set pt"
  shows "0 \<le> f \<and> f < int (length pt)"
proof -
  from assms(2) obtain i where i: "i < length pt" "pt ! i = (p, f)"
    by (auto simp add: in_set_conv_nth)
  then have "f = int i" using page_table_ok_nth[OF assms(1) i(1)] by simp
  then show ?thesis using i(1) by simp
qed

lemma page_table_ok_inj:
  assumes "page_table_ok pt" "(p, f) \<in> set pt" "(q, f) \<in> set pt"
  shows "p = q"
proof -
  from assms(2) obtain i where i: "i < length pt" "pt ! i = (p, f)"
    by (auto simp add: in_set_conv_nth)
  from assms(3) obtain j where j: "j < length pt" "pt ! j = (q, f)"
    by (auto simp add: in_set_conv_nth)
  have "f = int i" using page_table_ok_nth[OF assms(1) i(1)] i(2) by simp
  moreover have "f = int j" using page_table_ok_nth[OF assms(1) j(1)] j(2) by simp
  ultimately have "i = j" by simp
  then show ?thesis using i(2) j(2) by simp
qed

lemma page_table_ok_room:
  assumes "page_table_ok pt" "0 \<le> p" "p < 256" "p \<notin> fst ` set pt"
  shows "length pt < 256"
proof -
  have sub: "set (map fst pt) \<subseteq> {0..255} - {p}"
    using assms(1,4) by (auto simp add: page_table_ok_def)
  have "card (set (map fst pt)) = length (map fst pt)"
    using assms(1) by (intro distinct_card) (simp add: page_table_ok_def)
  moreover have "card (set (map fst pt)) \<le> card ({0..255} - {p})"
    by (rule card_mono[OF _ sub]) simp
  moreover have "card ({0..255} - {p}) = 255"
    using assms(2,3) by simp
  ultimately show ?thesis by simp
qed

lemma page_table_ok_snoc:
  assumes "page_table_ok pt" "0 \<le> p" "p < 256" "p \<notin> fst ` set pt"
  shows "page_table_ok (pt @ [(p, int (length pt))])"
  using assms by (simp add: page_table_ok_def)

subsection \<open>The TLB\<close>

lemma update_tlb_ok:
  assumes "tlb_ok s"
  shows "\<exists>t. update_tlb p f s = (Inr (), s\<lparr>tlb := t, tlb_queue := map fst t\<rparr>) \<and>
             distinct (map fst t) \<and> int (length t) \<le> TLB_SIZE \<and>
             set t \<subseteq> insert (p, f) (set (tlb s))"
proof -
  have q: "tlb_queue s = map fst (tlb s)" and dist: "distinct (map fst (tlb s))"
    and len: "int (length (tlb s)) \<le> TLB_SIZE"
    using assms by (auto simp add: tlb_ok_def)
  show ?thesis
  proof (cases "map_of (tlb s) p \<noteq> None")
    case True
    have "update_tlb p f s = (Inr (), s\<lparr>tlb := tlb s, tlb_queue := map fst (tlb s)\<rparr>)"
      using True q by (simp add: update_tlb_def)
    then show ?thesis using dist len by blast
  next
    case False
    then have fresh: "p \<notin> fst ` set (tlb s)" by (simp add: map_of_None_fresh)
    show ?thesis
    proof (cases "int (length (tlb s)) \<ge> TLB_SIZE")
      case full: True
      then obtain o_f rest where t: "tlb s = o_f # rest"
        by (cases "tlb s") (auto simp add: TLB_SIZE_def)
      obtain old fo where o_f: "o_f = (old, fo)" by (cases o_f)
      have old: "old \<notin> fst ` set rest" using dist t o_f by auto
      have p_rest: "p \<notin> fst ` set rest" using fresh t by auto
      have p_old: "p \<noteq> old" using fresh t o_f by auto
      have del: "AList.delete old (tlb s) = rest"
        using t o_f delete_fresh[OF old] by simp
      have "update_tlb p f s =
              (Inr (), s\<lparr>tlb := rest @ [(p, f)], tlb_queue := map fst (rest @ [(p, f)])\<rparr>)"
        using False full q t o_f del update_fresh[OF p_rest]
        by (simp add: update_tlb_def Let_def)
      moreover have "distinct (map fst (rest @ [(p, f)]))"
        using dist t p_rest by auto
      moreover have "int (length (rest @ [(p, f)])) \<le> TLB_SIZE"
        using len t by simp
      moreover have "set (rest @ [(p, f)]) \<subseteq> insert (p, f) (set (tlb s))"
        using t by auto
      ultimately show ?thesis by blast
    next
      case room: False
      have "update_tlb p f s =
              (Inr (), s\<lparr>tlb := tlb s @ [(p, f)], tlb_queue := map fst (tlb s @ [(p, f)])\<rparr>)"
        using False room q update_fresh[OF fresh]
        by (simp add: update_tlb_def Let_def)
      moreover have "distinct (map fst (tlb s @ [(p, f)]))"
        using dist fresh by auto
      moreover have "int (length (tlb s @ [(p, f)])) \<le> TLB_SIZE"
        using room by simp
      moreover have "set (tlb s @ [(p, f)]) \<subseteq> insert (p, f) (set (tlb s))"
        by auto
      ultimately show ?thesis by blast
    qed
  qed
qed

subsection \<open>The invariant under the single state changes\<close>

lemma page_table_ok_le:
  assumes "page_table_ok pt"
  shows "length pt \<le> 256"
proof -
  have sub: "set (map fst pt) \<subseteq> {0..255}"
    using assms by (auto simp add: page_table_ok_def)
  have "card (set (map fst pt)) = length (map fst pt)"
    using assms by (intro distinct_card) (simp add: page_table_ok_def)
  moreover have "card (set (map fst pt)) \<le> card {0..255::int}"
    by (rule card_mono[OF _ sub]) simp
  ultimately show ?thesis by simp
qed

lemma memory_block_cong:
  assumes "start + 8 \<le> length mem" "length mem' = length mem"
    and "\<And>j. j < 8 \<Longrightarrow> mem' ! (start + j) = mem ! (start + j)"
  shows "memory_block mem' start = memory_block mem start"
proof (rule nth_equalityI)
  show "length (memory_block mem' start) = length (memory_block mem start)"
    using assms(1,2) by (simp add: memory_block_length)
next
  fix j assume "j < length (memory_block mem' start)"
  then have j: "j < 8" using assms(1,2) by (simp add: memory_block_length)
  show "memory_block mem' start ! j = memory_block mem start ! j"
    using assms j by (simp add: memory_block_nth)
qed

lemma inv_stats: "sim_inv (s\<lparr>stats := x\<rparr>) = sim_inv s"
  by (simp add: sim_inv_def shape_ok_def tlb_ok_def cache_ok_def)

lemma inv_tlb:
  assumes "sim_inv s" "distinct (map fst t)" "int (length t) \<le> TLB_SIZE"
    "set t \<subseteq> set (page_table s)"
  shows "sim_inv (s\<lparr>tlb := t, tlb_queue := map fst t\<rparr>)"
  using assms by (simp add: sim_inv_def shape_ok_def tlb_ok_def cache_ok_def)

lemma block_bound:
  assumes "0 \<le> t" "block_address t (int n) < 256 * int L"
  shows "nat (block_address t (int n)) + 8 \<le> 256 * L"
proof -
  have nn: "0 \<le> t * 512 + int n * 8" using assms(1) by simp
  have lt: "t * 512 + int n * 8 < 256 * int L"
    using assms(2) by (simp add: block_address_eq)
  then have "64 * t + int n < 32 * int L" by linarith
  then have "t * 512 + int n * 8 + 8 \<le> 256 * int L" by linarith
  then have "nat (t * 512 + int n * 8) + 8 \<le> 256 * L" using nn by linarith
  then show ?thesis by (simp add: block_address_eq)
qed

lemma inv_fault:
  assumes i: "sim_inv s" and p: "0 \<le> p" "p < 256" "map_of (page_table s) p = None"
    and len: "length mem' = nat MEMORY_SIZE"
    and mem: "\<forall>j<length mem'. mem' ! j =
              (if f * 256 \<le> int j \<and> int j < f * 256 + 256 then (p + (int j - f * 256)) mod 256
               else main_memory s ! j)"
    and f: "f = int (length (page_table s)) mod 256"
  shows "sim_inv (s\<lparr>main_memory := mem', page_table := AList.update p f (page_table s)\<rparr>) \<and>
         AList.update p f (page_table s) = page_table s @ [(p, int (length (page_table s)))]"
proof -
  let ?pt = "page_table s"
  let ?L = "length ?pt"
  have pt: "page_table_ok ?pt" and sh: "shape_ok s" and tl: "tlb_ok s"
    and sub: "set (tlb s) \<subseteq> set ?pt" and co: "cache_ok s"
    using i by (simp_all add: sim_inv_def)
  have fresh: "p \<notin> fst ` set ?pt" using p(3) by (rule map_of_None_fresh)
  have L: "?L < 256" using page_table_ok_room[OF pt p(1,2) fresh] .
  then have fL: "f = int ?L" using f by simp
  have upd: "AList.update p f ?pt = ?pt @ [(p, int ?L)]"
    using update_fresh[OF fresh] fL by simp
  have pt': "page_table_ok (?pt @ [(p, int ?L)])"
    using page_table_ok_snoc[OF pt p(1,2) fresh] .
  have memlen: "length (main_memory s) = 65536"
    using sh by (simp add: shape_ok_def MEMORY_SIZE_def)
  have len': "length mem' = 65536" using len by (simp add: MEMORY_SIZE_def)
  have co': "cache_ok (s\<lparr>main_memory := mem', page_table := ?pt @ [(p, int ?L)]\<rparr>)"
    unfolding cache_ok_def
  proof (intro allI impI)
    fix n
    assume n: "n < length (cache (s\<lparr>main_memory := mem', page_table := ?pt @ [(p, int ?L)]\<rparr>))"
      and v: "line_valid (cache (s\<lparr>main_memory := mem', page_table := ?pt @ [(p, int ?L)]\<rparr>) ! n)"
    let ?l = "cache s ! n"
    let ?b = "block_address (line_tag ?l) (int n)"
    have old: "0 \<le> line_tag ?l" "?b < 256 * int ?L"
      "line_data ?l = memory_block (main_memory s) (nat ?b)"
      using co n v by (simp_all add: cache_ok_def PAGE_SIZE_def)
    have bb: "nat ?b + 8 \<le> 256 * ?L" using block_bound[OF old(1,2)] .
    have "memory_block mem' (nat ?b) = memory_block (main_memory s) (nat ?b)"
    proof (rule memory_block_cong)
      show "nat ?b + 8 \<le> length (main_memory s)" using bb L memlen by simp
      show "length mem' = length (main_memory s)" using memlen len' by simp
      fix j :: nat assume "j < 8"
      then have x: "nat ?b + j < 256 * ?L" using bb by simp
      then have lt1: "nat ?b + j < length mem'" using L len' by simp
      have "int (nat ?b + j) < 256 * int ?L" using x by linarith
      then have lt2: "\<not> (f * 256 \<le> int (nat ?b + j))" unfolding fL by linarith
      note lt = lt1 lt2
      show "mem' ! (nat ?b + j) = main_memory s ! (nat ?b + j)"
        using mem[rule_format, OF lt(1)] lt(2) by simp
    qed
    then show "0 \<le> line_tag (cache (s\<lparr>main_memory := mem', page_table := ?pt @ [(p, int ?L)]\<rparr>) ! n) \<and>
        block_address (line_tag (cache (s\<lparr>main_memory := mem', page_table := ?pt @ [(p, int ?L)]\<rparr>) ! n)) (int n)
          < PAGE_SIZE * int (length (page_table (s\<lparr>main_memory := mem', page_table := ?pt @ [(p, int ?L)]\<rparr>))) \<and>
        line_data (cache (s\<lparr>main_memory := mem', page_table := ?pt @ [(p, int ?L)]\<rparr>) ! n) =
          memory_block (main_memory (s\<lparr>main_memory := mem', page_table := ?pt @ [(p, int ?L)]\<rparr>))
            (nat (block_address (line_tag (cache (s\<lparr>main_memory := mem', page_table := ?pt @ [(p, int ?L)]\<rparr>) ! n)) (int n)))"
      using old by (simp add: PAGE_SIZE_def)
  qed
  have sh': "shape_ok (s\<lparr>main_memory := mem', page_table := ?pt @ [(p, int ?L)]\<rparr>)"
    using sh len by (simp add: shape_ok_def)
  have "tlb_ok (s\<lparr>main_memory := mem', page_table := ?pt @ [(p, int ?L)]\<rparr>) = tlb_ok s"
    by (simp add: tlb_ok_def)
  then have tl': "tlb_ok (s\<lparr>main_memory := mem', page_table := ?pt @ [(p, int ?L)]\<rparr>)"
    using tl by simp
  have "sim_inv (s\<lparr>main_memory := mem', page_table := ?pt @ [(p, int ?L)]\<rparr>)"
    unfolding sim_inv_def using sh' pt' tl' sub co' by auto
  then show ?thesis using upd by simp
qed

lemma inv_fill:
  assumes i: "sim_inv s" and pa: "0 \<le> pa" "pa < 256 * int (length (page_table s))"
  shows "sim_inv (s\<lparr>cache := (cache s)[nat ((pa div 8) mod 64) :=
                 \<lparr>line_tag = pa div 512,
                  line_data = memory_block (main_memory s) (8 * (nat pa div 8)),
                  line_valid = True, line_dirty = False\<rparr>]\<rparr>)"
proof -
  let ?n = "nat ((pa div 8) mod 64)"
  let ?blk = "memory_block (main_memory s) (8 * (nat pa div 8))"
  let ?l = "\<lparr>line_tag = pa div 512, line_data = ?blk, line_valid = True, line_dirty = False\<rparr>"
  let ?s' = "s\<lparr>cache := (cache s)[?n := ?l]\<rparr>"
  have pt: "page_table_ok (page_table s)" and sh: "shape_ok s" and tl: "tlb_ok s"
    and sub: "set (tlb s) \<subseteq> set (page_table s)" and co: "cache_ok s"
    using i by (simp_all add: sim_inv_def)
  have memlen: "length (main_memory s) = 65536"
    using sh by (simp add: shape_ok_def MEMORY_SIZE_def)
  have pa': "pa < 65536" using pa(2) page_table_ok_le[OF pt] by linarith
  have nb: "nat (8 * (pa div 8)) = 8 * (nat pa div 8)"
    using pa by (simp add: nat_mult_distrib nat_div_distrib)
  have "8 * (pa div 8) + 8 \<le> 65536" using pa' by simp
  moreover have "int (nat (8 * (pa div 8))) = 8 * (pa div 8)" using pa(1) by simp
  ultimately have blk: "8 * (nat pa div 8) + 8 \<le> length (main_memory s)"
    unfolding nb memlen by linarith
  have sh': "shape_ok ?s'"
  proof -
    have "length (line_data l) = nat CACHE_LINE_SIZE" if "l \<in> set ((cache s)[?n := ?l])" for l
    proof -
      from that set_update_subset_insert[of "cache s" ?n ?l]
      have "l = ?l \<or> l \<in> set (cache s)" by auto
      then show ?thesis
        using sh memory_block_length[OF blk] by (auto simp add: shape_ok_def CACHE_LINE_SIZE_def)
    qed
    then show ?thesis using sh by (simp add: shape_ok_def)
  qed
  have "tlb_ok ?s' = tlb_ok s" by (simp add: tlb_ok_def)
  then have tl': "tlb_ok ?s'" using tl by simp
  have co': "cache_ok ?s'"
    unfolding cache_ok_def
  proof (intro allI impI)
    fix k
    assume k: "k < length (cache ?s')" and v: "line_valid (cache ?s' ! k)"
    show "0 \<le> line_tag (cache ?s' ! k) \<and>
        block_address (line_tag (cache ?s' ! k)) (int k) < PAGE_SIZE * int (length (page_table ?s')) \<and>
        line_data (cache ?s' ! k) =
          memory_block (main_memory ?s') (nat (block_address (line_tag (cache ?s' ! k)) (int k)))"
    proof (cases "k = ?n")
      case True
      have k': "k < length (cache s)" using k by simp
      have l: "(cache s)[?n := ?l] ! k = ?l" using True k' by simp
      have kn: "int k = (pa div 8) mod 64" using True by simp
      have ba: "block_address (pa div 512) (int k) = 8 * (pa div 8)"
        using block_address_components[of pa] kn by simp
      have "8 * (pa div 8) \<le> pa" by simp
      then have b1: "8 * (pa div 8) < 256 * int (length (page_table s))" using pa(2) by linarith
      have b2: "0 \<le> pa div 512" using pa(1) by simp
      show ?thesis
        by (simp add: l ba nb b1 b2 PAGE_SIZE_def)
    next
      case False
      have k': "k < length (cache s)" using k by simp
      have l: "(cache s)[?n := ?l] ! k = cache s ! k" using False by simp
      have v': "line_valid (cache s ! k)" using v l by simp
      show ?thesis
        using co k' v' by (simp add: l cache_ok_def)
    qed
  qed
  show ?thesis
    unfolding sim_inv_def using sh' tl' co' pt sub by simp
qed

subsection \<open>The branches of the pipeline\<close>

lemma lookup_frame_hit:
  "map_of (tlb s) p = Some f \<Longrightarrow>
   lookup_frame p s =
     (Inr (f, True, [TLB_HIT p f]), s\<lparr>stats := (stats s)\<lparr>tlb_hits := tlb_hits (stats s) + 1\<rparr>\<rparr>)"
  by (simp add: lookup_frame_def)

lemma lookup_frame_table:
  "map_of (tlb s) p = None \<Longrightarrow> map_of (page_table s) p = Some f \<Longrightarrow>
   update_tlb p f (s\<lparr>stats := (stats s)\<lparr>tlb_misses := tlb_misses (stats s) + 1\<rparr>\<rparr>) = (Inr (), s3) \<Longrightarrow>
   lookup_frame p s = (Inr (f, False, [TLB_MISS p, PAGE_TABLE_HIT f, TLB_UPDATE p f]), s3)"
  by (simp add: lookup_frame_def Let_def)

lemma lookup_frame_fault:
  "map_of (tlb s) p = None \<Longrightarrow> map_of (page_table s) p = None \<Longrightarrow>
   handle_page_fault p (s\<lparr>stats := (stats s)\<lparr>tlb_misses := tlb_misses (stats s) + 1\<rparr>\<rparr>) = (Inr f, s2) \<Longrightarrow>
   update_tlb p f s2 = (Inr (), s3) \<Longrightarrow>
   lookup_frame p s = (Inr (f, False, [TLB_MISS p, PAGE_FAULT p f, TLB_UPDATE p f]), s3)"
  by (simp add: lookup_frame_def Let_def)

lemma translate_address_ok:
  "lookup_frame ((drop_bit 8 v) AND 255)
     (s\<lparr>stats := (stats s)\<lparr>total_accesses := total_accesses (stats s) + 1\<rparr>\<rparr>) = (Inr (f, h, lg), s2) \<Longrightarrow>
   access_cache (f * PAGE_SIZE + (v AND 255)) s2 = (Inr (val, ch), s3) \<Longrightarrow>
   translate_address v s =
     (Inr \<lparr>res_virtual_addr = v, res_physical_addr = f * PAGE_SIZE + (v AND 255),
           res_value = val, res_page_num = (drop_bit 8 v) AND 255, res_frame_num = f,
           res_tlb_hit = h, res_cache_hit = ch,
           res_log = lg @ [PHYSICAL_ADDRESS (f * PAGE_SIZE + (v AND 255))]
                       @ [if ch then CACHE_HIT val else CACHE_MISS val]\<rparr>, s3)"
  by (simp add: translate_address_def Let_def)

subsection \<open>The invariant along the pipeline\<close>

lemma lookup_frame_inv:
  assumes i: "sim_inv s" and p: "0 \<le> p" "p < 256"
  shows "\<exists>f h lg s1. lookup_frame p s = (Inr (f, h, lg), s1) \<and> sim_inv s1 \<and>
           0 \<le> f \<and> f < int (length (page_table s1)) \<and>
           total_accesses (stats s1) = total_accesses (stats s) \<and>
           tlb_hits (stats s1) + tlb_misses (stats s1) =
             tlb_hits (stats s) + tlb_misses (stats s) + 1 \<and>
           cache_hits (stats s1) = cache_hits (stats s) \<and>
           cache_misses (stats s1) = cache_misses (stats s)"
proof (cases "map_of (tlb s) p")
  case (Some f)
  let ?s1 = "s\<lparr>stats := (stats s)\<lparr>tlb_hits := tlb_hits (stats s) + 1\<rparr>\<rparr>"
  have pt: "page_table_ok (page_table s)" and sub: "set (tlb s) \<subseteq> set (page_table s)"
    using i by (simp_all add: sim_inv_def)
  have "(p, f) \<in> set (page_table s)" using map_of_SomeD[OF Some] sub by auto
  then have f: "0 \<le> f \<and> f < int (length (page_table s))"
    by (rule page_table_ok_frame[OF pt])
  have "sim_inv ?s1" using i by (simp only: inv_stats)
  then show ?thesis
    using lookup_frame_hit[OF Some] f by (intro exI[of _ f] exI[of _ True] exI[of _ "[TLB_HIT p f]"] exI[of _ ?s1]) simp
next
  case None
  let ?s1 = "s\<lparr>stats := (stats s)\<lparr>tlb_misses := tlb_misses (stats s) + 1\<rparr>\<rparr>"
  have i1: "sim_inv ?s1" using i by (simp only: inv_stats)
  show ?thesis
  proof (cases "map_of (page_table s) p")
    case (Some f)
    have pt: "page_table_ok (page_table s)" using i by (simp add: sim_inv_def)
    have mem: "(p, f) \<in> set (page_table s)" using map_of_SomeD[OF Some] .
    have f: "0 \<le> f \<and> f < int (length (page_table s))"
      using page_table_ok_frame[OF pt mem] .
    have "tlb_ok ?s1" using i1 by (simp add: sim_inv_def)
    from update_tlb_ok[OF this, of p f] obtain t where
      t: "update_tlb p f ?s1 = (Inr (), ?s1\<lparr>tlb := t, tlb_queue := map fst t\<rparr>)"
         "distinct (map fst t)" "int (length t) \<le> TLB_SIZE"
         "set t \<subseteq> insert (p, f) (set (tlb ?s1))"
      by blast
    have "set t \<subseteq> set (page_table ?s1)"
      using t(4) mem i by (auto simp add: sim_inv_def)
    from inv_tlb[OF i1 t(2,3) this]
    have i3: "sim_inv (?s1\<lparr>tlb := t, tlb_queue := map fst t\<rparr>)" .
    show ?thesis
      using lookup_frame_table[OF None Some t(1)] i3 f
      by (intro exI[of _ f] exI[of _ False] exI[of _ "[TLB_MISS p, PAGE_TABLE_HIT f, TLB_UPDATE p f]"]
            exI[of _ "?s1\<lparr>tlb := t, tlb_queue := map fst t\<rparr>"]) simp
  next
    case pnone: None
    let ?f = "int (length (page_table ?s1)) mod 256"
    have memlen: "length (main_memory ?s1) = nat MEMORY_SIZE"
      using i by (simp add: sim_inv_def shape_ok_def)
    from handle_page_fault_ok[OF memlen, of p] obtain mem' where
      h: "handle_page_fault p ?s1 =
            (Inr ?f, ?s1\<lparr>stats := (stats ?s1)\<lparr>page_faults := page_faults (stats ?s1) + 1\<rparr>,
                        main_memory := mem',
                        page_table := AList.update p ?f (page_table ?s1)\<rparr>)"
         "length mem' = nat MEMORY_SIZE"
         "\<forall>j<length mem'. mem' ! j =
              (if ?f * 256 \<le> int j \<and> int j < ?f * 256 + 256 then (p + (int j - ?f * 256)) mod 256
               else main_memory ?s1 ! j)"
      by blast
    let ?s2 = "?s1\<lparr>stats := (stats ?s1)\<lparr>page_faults := page_faults (stats ?s1) + 1\<rparr>,
                  main_memory := mem', page_table := AList.update p ?f (page_table ?s1)\<rparr>"
    have pn1: "map_of (page_table ?s1) p = None" using pnone by simp
    from inv_fault[OF i1 p pn1 h(2) h(3) refl]
    have i2': "sim_inv (?s1\<lparr>main_memory := mem', page_table := AList.update p ?f (page_table ?s1)\<rparr>)"
      and upd: "AList.update p ?f (page_table ?s1) = page_table ?s1 @ [(p, int (length (page_table ?s1)))]"
      by blast+
    have "?s2 = (?s1\<lparr>main_memory := mem', page_table := AList.update p ?f (page_table ?s1)\<rparr>)
                  \<lparr>stats := (stats ?s1)\<lparr>page_faults := page_faults (stats ?s1) + 1\<rparr>\<rparr>"
      by simp
    then have i2: "sim_inv ?s2" using i2' by (simp only: inv_stats)
    have pt2: "page_table_ok (page_table ?s2)" using i2 by (simp add: sim_inv_def)
    have "(p, ?f) \<in> set (AList.update p ?f (page_table ?s1))"
      by (rule map_of_SomeD) (simp add: update_conv')
    then have mem2: "(p, ?f) \<in> set (page_table ?s2)" by simp
    have f: "0 \<le> ?f \<and> ?f < int (length (page_table ?s2))"
      using page_table_ok_frame[OF pt2 mem2] .
    have "tlb_ok ?s2" using i2 by (simp add: sim_inv_def)
    from update_tlb_ok[OF this, of p ?f] obtain t where
      t: "update_tlb p ?f ?s2 = (Inr (), ?s2\<lparr>tlb := t, tlb_queue := map fst t\<rparr>)"
         "distinct (map fst t)" "int (length t) \<le> TLB_SIZE"
         "set t \<subseteq> insert (p, ?f) (set (tlb ?s2))"
      by blast
    have "set (tlb ?s2) \<subseteq> set (page_table ?s2)" using i2 by (simp add: sim_inv_def)
    then have "set t \<subseteq> set (page_table ?s2)"
      using t(4) mem2 by blast
    from inv_tlb[OF i2 t(2,3) this]
    have i3: "sim_inv (?s2\<lparr>tlb := t, tlb_queue := map fst t\<rparr>)" .
    have len3: "length (page_table (?s2\<lparr>tlb := t, tlb_queue := map fst t\<rparr>)) = length (page_table ?s2)"
      by simp
    show ?thesis
      apply (intro exI[of _ ?f] exI[of _ False] exI[of _ "[TLB_MISS p, PAGE_FAULT p ?f, TLB_UPDATE p ?f]"]
            exI[of _ "?s2\<lparr>tlb := t, tlb_queue := map fst t\<rparr>"] conjI)
             apply (rule lookup_frame_fault[OF None pnone h(1) t(1)])
            apply (rule i3)
           apply (rule f[THEN conjunct1])
          apply (simp only: len3 f[THEN conjunct2])
         apply simp_all
      done
  qed
qed

lemma access_cache_inv:
  assumes i: "sim_inv s" and pa: "0 \<le> pa" "pa < 256 * int (length (page_table s))"
  shows "\<exists>val h s1. access_cache pa s = (Inr (val, h), s1) \<and> sim_inv s1 \<and>
           pa < MEMORY_SIZE \<and>
           total_accesses (stats s1) = total_accesses (stats s) \<and>
           tlb_hits (stats s1) = tlb_hits (stats s) \<and>
           tlb_misses (stats s1) = tlb_misses (stats s) \<and>
           cache_hits (stats s1) + cache_misses (stats s1) =
             cache_hits (stats s) + cache_misses (stats s) + 1"
proof -
  let ?n = "nat ((pa div 8) mod 64)"
  have pt: "page_table_ok (page_table s)" and sh: "shape_ok s"
    using i by (simp_all add: sim_inv_def)
  have pa': "pa < MEMORY_SIZE"
    using pa(2) page_table_ok_le[OF pt] by (simp add: MEMORY_SIZE_def)
  have memlen: "length (main_memory s) = nat MEMORY_SIZE"
    and c: "length (cache s) = nat CACHE_SIZE"
    using sh by (simp_all add: shape_ok_def)
  have "?n < length (cache s)" using c by (simp add: CACHE_SIZE_def)
  then have "cache s ! ?n \<in> set (cache s)" by (rule nth_mem)
  then have d: "length (line_data (cache s ! ?n)) = nat CACHE_LINE_SIZE"
    using sh by (simp add: shape_ok_def)
  show ?thesis
  proof (cases "line_valid (cache s ! ?n) \<and> line_tag (cache s ! ?n) = pa div 512")
    case True
    let ?s1 = "s\<lparr>stats := (stats s)\<lparr>cache_hits := cache_hits (stats s) + 1\<rparr>\<rparr>"
    have "sim_inv ?s1" using i by (simp only: inv_stats)
    then show ?thesis
      using access_cache_hit[OF c d True] pa'
      by (intro exI[of _ "line_data (cache s ! ?n) ! nat (pa mod 8)"] exI[of _ True] exI[of _ ?s1]) simp
  next
    case False
    let ?l = "\<lparr>line_tag = pa div 512,
               line_data = memory_block (main_memory s) (8 * (nat pa div 8)),
               line_valid = True, line_dirty = False\<rparr>"
    let ?s1 = "s\<lparr>stats := (stats s)\<lparr>cache_misses := cache_misses (stats s) + 1\<rparr>,
                 cache := (cache s)[?n := ?l]\<rparr>"
    have "?s1 = (s\<lparr>cache := (cache s)[?n := ?l]\<rparr>)
                  \<lparr>stats := (stats s)\<lparr>cache_misses := cache_misses (stats s) + 1\<rparr>\<rparr>"
      by simp
    then have "sim_inv ?s1" using inv_fill[OF i pa] by (simp only: inv_stats)
    then show ?thesis
      using access_cache_miss[OF pa(1) pa' memlen c d False] pa'
      by (intro exI[of _ "main_memory s ! nat pa"] exI[of _ False] exI[of _ ?s1]) simp
  qed
qed

lemma translate_address_inv:
  assumes i: "sim_inv s"
  shows "\<exists>r s'. translate_address v s = (Inr r, s') \<and> sim_inv s' \<and>
     0 \<le> res_frame_num r \<and> res_frame_num r < NUM_PAGES \<and>
     res_physical_addr r = res_frame_num r * PAGE_SIZE + (v AND 255) \<and>
     0 \<le> res_physical_addr r \<and> res_physical_addr r < MEMORY_SIZE \<and>
     total_accesses (stats s') = total_accesses (stats s) + 1 \<and>
     tlb_hits (stats s') + tlb_misses (stats s') =
       tlb_hits (stats s) + tlb_misses (stats s) + 1 \<and>
     cache_hits (stats s') + cache_misses (stats s') =
       cache_hits (stats s) + cache_misses (stats s) + 1"
proof -
  let ?s0 = "s\<lparr>stats := (stats s)\<lparr>total_accesses := total_accesses (stats s) + 1\<rparr>\<rparr>"
  let ?p = "(drop_bit 8 v) AND 255"
  let ?o = "v AND 255"
  have i0: "sim_inv ?s0" using i by (simp only: inv_stats)
  have p: "0 \<le> ?p" "?p < 256" by (simp_all add: and_255)
  have o: "0 \<le> ?o" "?o < 256" by (simp_all add: and_255)
  from lookup_frame_inv[OF i0 p] obtain f h lg s1 where
    l: "lookup_frame ?p ?s0 = (Inr (f, h, lg), s1)" "sim_inv s1"
       "0 \<le> f" "f < int (length (page_table s1))"
       "total_accesses (stats s1) = total_accesses (stats ?s0)"
       "tlb_hits (stats s1) + tlb_misses (stats s1) =
             tlb_hits (stats ?s0) + tlb_misses (stats ?s0) + 1"
       "cache_hits (stats s1) = cache_hits (stats ?s0)"
       "cache_misses (stats s1) = cache_misses (stats ?s0)"
    by blast
  let ?pa = "f * PAGE_SIZE + ?o"
  have pa: "0 \<le> ?pa" "?pa < 256 * int (length (page_table s1))"
    using l(3,4) o unfolding PAGE_SIZE_def by linarith+
  from access_cache_inv[OF l(2) pa] obtain val ch s2 where
    a: "access_cache ?pa s1 = (Inr (val, ch), s2)" "sim_inv s2" "?pa < MEMORY_SIZE"
       "total_accesses (stats s2) = total_accesses (stats s1)"
       "tlb_hits (stats s2) = tlb_hits (stats s1)"
       "tlb_misses (stats s2) = tlb_misses (stats s1)"
       "cache_hits (stats s2) + cache_misses (stats s2) =
             cache_hits (stats s1) + cache_misses (stats s1) + 1"
    by blast
  have "length (page_table s1) \<le> 256"
    using l(2) page_table_ok_le by (simp add: sim_inv_def)
  then have f: "f < NUM_PAGES" using l(4) by (simp add: NUM_PAGES_eq)
  note t = translate_address_ok[OF l(1) a(1)]
  show ?thesis
    apply (rule exI, rule exI[of _ s2], intro conjI)
             apply (rule t)
            apply (rule a(2))
           apply (simp add: l(3))
          apply (simp add: f)
         apply simp
        apply (simp add: pa(1))
       apply (simp add: a(3))
      apply (simp add: a(4) l(5))
     apply (simp add: a(5,6) l(6))
    apply (simp add: a(7) l(7,8))
    done
qed

subsection \<open>Reset and runs\<close>

lemma length_random_memory: "length (random_memory rnd) = nat MEMORY_SIZE"
  by (simp add: random_memory_def)

lemma sim_inv_reset: "sim_inv (reset_simulator rnd)"
proof -
  have "shape_ok (reset_simulator rnd)"
    by (simp add: shape_ok_def reset_simulator_def length_random_memory empty_line_def)
  moreover have "page_table_ok (page_table (reset_simulator rnd))"
    by (simp add: page_table_ok_def reset_simulator_def)
  moreover have "tlb_ok (reset_simulator rnd)"
    by (simp add: tlb_ok_def reset_simulator_def TLB_SIZE_def)
  moreover have "cache_ok (reset_simulator rnd)"
    by (simp add: cache_ok_def reset_simulator_def empty_line_def)
  moreover have "set (tlb (reset_simulator rnd)) \<subseteq> set (page_table (reset_simulator rnd))"
    by (simp add: reset_simulator_def)
  ultimately show ?thesis by (simp add: sim_inv_def)
qed

lemma sim_inv_step: "sim_inv s \<Longrightarrow> sim_inv (snd (translate_address v s))"
  using translate_address_inv[of s v] by auto

lemma sim_inv_run: "sim_inv s \<Longrightarrow> sim_inv (run vs s)"
  by (induction vs arbitrary: s) (simp_all add: sim_inv_step)

lemma sim_inv_exec: "sim_inv s \<Longrightarrow> sim_inv (exec x s)"
  by (cases x) (simp_all add: sim_inv_step sim_inv_reset)

lemma sim_inv_exec_all: "sim_inv s \<Longrightarrow> sim_inv (exec_all xs s)"
  by (induction xs arbitrary: s) (simp_all add: sim_inv_exec)

lemma run_append: "run (vs @ ws) s = run ws (run vs s)"
  by (induction vs arbitrary: s) simp_all

lemma run_counts:
  assumes "sim_inv s"
  shows "total_accesses (stats (run vs s)) = total_accesses (stats s) + int (length vs) \<and>
         tlb_hits (stats (run vs s)) + tlb_misses (stats (run vs s)) =
           tlb_hits (stats s) + tlb_misses (stats s) + int (length vs) \<and>
         cache_hits (stats (run vs s)) + cache_misses (stats (run vs s)) =
           cache_hits (stats s) + cache_misses (stats s) + int (length vs)"
  using assms
proof (induction vs arbitrary: s)
  case Nil
  then show ?case by simp
next
  case (Cons v vs)
  from translate_address_inv[OF Cons.prems, of v] obtain r s' where
    t: "translate_address v s = (Inr r, s')" "sim_inv s'"
       "total_accesses (stats s') = total_accesses (stats s) + 1"
       "tlb_hits (stats s') + tlb_misses (stats s') =
          tlb_hits (stats s) + tlb_misses (stats s) + 1"
       "cache_hits (stats s') + cache_misses (stats s') =
          cache_hits (stats s) + cache_misses (stats s) + 1"
    by blast
  have r: "run (v # vs) s = run vs s'" using t(1) by simp
  show ?case unfolding r using Cons.IH[OF t(2)] t(3,4,5) by simp
qed

subsection \<open>Counters never decrease\<close>

lemma stats_le_refl: "stats_le a a"
  by (simp add: stats_le_def)

lemma stats_le_trans: "stats_le a b \<Longrightarrow> stats_le b c \<Longrightarrow> stats_le a c"
  by (auto simp add: stats_le_def)

lemma stats_handle_page_fault:
  "stats (snd (handle_page_fault p s)) = (stats s)\<lparr>page_faults := page_faults (stats s) + 1\<rparr>"
  by (simp add: handle_page_fault_def Let_def split: prod.splits option.splits)

lemma stats_update_tlb: "stats (snd (update_tlb p f s)) = stats s"
  by (simp add: update_tlb_def Let_def split: list.splits)

lemma stats_access_cache: "stats_le (stats s) (stats (snd (access_cache pa s)))"
  by (simp add: access_cache_def Let_def stats_le_def split: prod.splits option.splits)

lemma stats_lookup_frame: "stats_le (stats s) (stats (snd (lookup_frame p s)))"
proof (cases "map_of (tlb s) p")
  case (Some f)
  then show ?thesis by (simp add: lookup_frame_def stats_le_def)
next
  case None
  let ?s1 = "s\<lparr>stats := (stats s)\<lparr>tlb_misses := tlb_misses (stats s) + 1\<rparr>\<rparr>"
  show ?thesis
  proof (cases "map_of (page_table s) p")
    case (Some f)
    obtain r s3 where u: "update_tlb p f ?s1 = (r, s3)" by (cases "update_tlb p f ?s1")
    then have "stats s3 = stats ?s1" using stats_update_tlb[of p f ?s1] by simp
    then show ?thesis
      using None Some u by (simp add: lookup_frame_def Let_def stats_le_def split: sum.splits)
  next
    case pnone: None
    obtain r s2 where h: "handle_page_fault p ?s1 = (r, s2)" by (cases "handle_page_fault p ?s1")
    then have s2: "stats s2 = (stats ?s1)\<lparr>page_faults := page_faults (stats ?s1) + 1\<rparr>"
      using stats_handle_page_fault[of p ?s1] by simp
    show ?thesis
    proof (cases r)
      case (Inl e)
      then show ?thesis
        using None pnone h s2 by (simp add: lookup_frame_def Let_def stats_le_def)
    next
      case (Inr f)
      obtain r' s3 where u: "update_tlb p f s2 = (r', s3)" by (cases "update_tlb p f s2")
      then have "stats s3 = stats s2" using stats_update_tlb[of p f s2] by simp
      then show ?thesis
        using None pnone h s2 Inr u
        by (simp add: lookup_frame_def Let_def stats_le_def split: sum.splits)
    qed
  qed
qed

lemma stats_translate_address: "stats_le (stats s) (stats (snd (translate_address v s)))"
proof -
  let ?s0 = "s\<lparr>stats := (stats s)\<lparr>total_accesses := total_accesses (stats s) + 1\<rparr>\<rparr>"
  let ?p = "(drop_bit 8 v) AND 255"
  have a: "stats_le (stats s) (stats ?s0)" by (simp add: stats_le_def)
  obtain r s1 where l: "lookup_frame ?p ?s0 = (r, s1)" by (cases "lookup_frame ?p ?s0")
  have b: "stats_le (stats ?s0) (stats s1)" using stats_lookup_frame[of ?s0 ?p] l by simp
  show ?thesis
  proof (cases r)
    case (Inl e)
    then have "snd (translate_address v s) = s1"
      using l by (simp add: translate_address_def Let_def)
    then show ?thesis using stats_le_trans[OF a b] by simp
  next
    case (Inr x)
    obtain f h lg where x: "x = (f, h, lg)" by (cases x)
    let ?pa = "f * PAGE_SIZE + (v AND 255)"
    have c: "stats_le (stats s1) (stats (snd (access_cache ?pa s1)))"
      by (rule stats_access_cache)
    have "snd (translate_address v s) = snd (access_cache ?pa s1)"
      using l Inr x by (simp add: translate_address_def Let_def split: prod.splits sum.splits)
    then show ?thesis using stats_le_trans[OF a stats_le_trans[OF b c]] by simp
  qed
qed

subsection \<open>What a cache access leaves alone\<close>

lemma py_index_small: "0 \<le> i \<Longrightarrow> py_index n i = Some k \<Longrightarrow> k = nat i \<and> k < n"
  by (auto simp add: py_index_def split: if_splits)

lemma access_cache_frame:
  "main_memory (snd (access_cache pa s)) = main_memory s \<and>
   page_table (snd (access_cache pa s)) = page_table s \<and>
   tlb (snd (access_cache pa s)) = tlb s \<and>
   tlb_queue (snd (access_cache pa s)) = tlb_queue s \<and>
   cache (snd (access_cache pa s)) =
     (cache s)[nat ((pa div 8) mod 64) := cache (snd (access_cache pa s)) ! nat ((pa div 8) mod 64)]"
proof (cases "py_index (length (cache s)) ((pa div 8) mod 64)")
  case None
  then have "snd (access_cache pa s) = s"
    by (simp add: access_cache_def get_cache_components_eq)
  then show ?thesis by simp
next
  case (Some k)
  have "0 \<le> (pa div 8) mod 64" by simp
  from py_index_small[OF this Some] have k: "k = nat ((pa div 8) mod 64)" "k < length (cache s)"
    by simp_all
  show ?thesis
    using Some k(2) unfolding k(1)
    by (simp add: access_cache_def get_cache_components_eq Let_def
             split: prod.splits option.splits)
qed

subsection \<open>The first access after a reset\<close>

lemma upt_8: "[0..<8] = [0, 1, 2, 3, 4, 5, 6, 7]"
  by (simp add: upt_rec)

lemma first_access:
  "\<exists>mem'. translate_address 0 (reset_simulator rnd) =
      (Inr \<lparr>res_virtual_addr = 0, res_physical_addr = 0, res_value = 0, res_page_num = 0,
            res_frame_num = 0, res_tlb_hit = False, res_cache_hit = False,
            res_log = [TLB_MISS 0, PAGE_FAULT 0 0, TLB_UPDATE 0 0, PHYSICAL_ADDRESS 0,
                       CACHE_MISS 0]\<rparr>,
       \<lparr>main_memory = mem', page_table = [(0, 0)], tlb = [(0, 0)], tlb_queue = [0],
        cache = (replicate (nat CACHE_SIZE) empty_line)
                  [0 := \<lparr>line_tag = 0, line_data = [0, 1, 2, 3, 4, 5, 6, 7],
                         line_valid = True, line_dirty = False\<rparr>],
        stats = \<lparr>tlb_hits = 0, tlb_misses = 1, cache_hits = 0, cache_misses = 1,
                 page_faults = 1, total_accesses = 1\<rparr>\<rparr>) \<and>
     length mem' = nat MEMORY_SIZE \<and>
     take 256 mem' = map int [0..<256] \<and>
     drop 256 mem' = drop 256 (random_memory rnd)"
proof -
  let ?r = "reset_simulator rnd"
  let ?s0 = "?r\<lparr>stats := (stats ?r)\<lparr>total_accesses := total_accesses (stats ?r) + 1\<rparr>\<rparr>"
  let ?s1 = "?s0\<lparr>stats := (stats ?s0)\<lparr>tlb_misses := tlb_misses (stats ?s0) + 1\<rparr>\<rparr>"
  have memlen: "length (main_memory ?s1) = nat MEMORY_SIZE"
    by (simp add: reset_simulator_def length_random_memory)
  have f0: "int (length (page_table ?s1)) mod 256 = 0"
    by (simp add: reset_simulator_def)
  from handle_page_fault_ok[OF memlen, of 0] obtain mem' where
    h: "handle_page_fault 0 ?s1 =
          (Inr 0, ?s1\<lparr>stats := (stats ?s1)\<lparr>page_faults := page_faults (stats ?s1) + 1\<rparr>,
                      main_memory := mem',
                      page_table := AList.update 0 0 (page_table ?s1)\<rparr>)"
       "length mem' = nat MEMORY_SIZE"
       "\<forall>j<length mem'. mem' ! j =
           (if 0 * 256 \<le> int j \<and> int j < 0 * 256 + 256 then (0 + (int j - 0 * 256)) mod 256
            else main_memory ?s1 ! j)"
    unfolding f0 by blast
  let ?s2 = "?s1\<lparr>stats := (stats ?s1)\<lparr>page_faults := page_faults (stats ?s1) + 1\<rparr>,
                main_memory := mem', page_table := AList.update 0 0 (page_table ?s1)\<rparr>"
  let ?s3 = "?s2\<lparr>tlb := [(0, 0)], tlb_queue := [0]\<rparr>"
  have len': "length mem' = 65536" using h(2) by (simp add: MEMORY_SIZE_def)
  have nth: "mem' ! j = (if j < 256 then int j else random_memory rnd ! j)" if "j < 65536" for j
  proof -
    have "j < length mem'" using that len' by simp
    from h(3)[rule_format, OF this] show ?thesis
      by (simp add: reset_simulator_def)
  qed
  have tk: "take 256 mem' = map int [0..<256]"
  proof (rule nth_equalityI)
    show "length (take 256 mem') = length (map int [0..<256])" using len' by simp
  next
    fix j assume "j < length (take 256 mem')"
    then have j: "j < 256" by simp
    then show "take 256 mem' ! j = map int [0..<256] ! j" using nth[of j] by simp
  qed
  have dr: "drop 256 mem' = drop 256 (random_memory rnd)"
  proof (rule nth_equalityI)
    show "length (drop 256 mem') = length (drop 256 (random_memory rnd))"
      using len' by (simp add: length_random_memory MEMORY_SIZE_def)
  next
    fix j assume "j < length (drop 256 mem')"
    then have j: "256 + j < 65536" using len' by simp
    then show "drop 256 mem' ! j = drop 256 (random_memory rnd) ! j"
      using nth[OF j] len' by (simp add: length_random_memory MEMORY_SIZE_def)
  qed
  have u: "update_tlb 0 0 ?s2 = (Inr (), ?s3)"
    by (simp add: update_tlb_def reset_simulator_def TLB_SIZE_def)
  have l: "lookup_frame ((drop_bit 8 0) AND 255) ?s0 =
             (Inr (0, False, [TLB_MISS 0, PAGE_FAULT 0 0, TLB_UPDATE 0 0]), ?s3)"
    using lookup_frame_fault[of ?s0 0, OF _ _ h(1) u] by (simp add: reset_simulator_def)
  have c3: "cache ?s3 = replicate (nat CACHE_SIZE) empty_line" by (simp add: reset_simulator_def)
  have line: "cache ?s3 ! nat ((0 div 8) mod 64) = empty_line"
    unfolding c3 by (simp add: CACHE_SIZE_def)
  have blk: "memory_block mem' 0 = [0, 1, 2, 3, 4, 5, 6, 7]"
  proof -
    have "memory_block mem' 0 = take 8 (take 256 mem')"
      by (simp add: memory_block_def CACHE_LINE_SIZE_def)
    also have "\<dots> = map int [0..<8]" unfolding tk by (simp add: take_map)
    finally show ?thesis by (simp add: upt_8)
  qed
  have a: "access_cache (0 * PAGE_SIZE + (0 AND 255)) ?s3 =
           (Inr (main_memory ?s3 ! nat 0, False),
            ?s3\<lparr>stats := (stats ?s3)\<lparr>cache_misses := cache_misses (stats ?s3) + 1\<rparr>,
              cache := (cache ?s3)[nat ((0 div 8) mod 64) :=
                 \<lparr>line_tag = 0 div 512,
                  line_data = memory_block (main_memory ?s3) (8 * (nat 0 div 8)),
                  line_valid = True, line_dirty = False\<rparr>]\<rparr>)"
  proof -
    have "access_cache 0 ?s3 =
           (Inr (main_memory ?s3 ! nat 0, False),
            ?s3\<lparr>stats := (stats ?s3)\<lparr>cache_misses := cache_misses (stats ?s3) + 1\<rparr>,
              cache := (cache ?s3)[nat ((0 div 8) mod 64) :=
                 \<lparr>line_tag = 0 div 512,
                  line_data = memory_block (main_memory ?s3) (8 * (nat 0 div 8)),
                  line_valid = True, line_dirty = False\<rparr>]\<rparr>)"
    proof (rule access_cache_miss)
      show "(0::int) \<le> 0" by simp
      show "0 < MEMORY_SIZE" by (simp add: MEMORY_SIZE_def)
      show "length (main_memory ?s3) = nat MEMORY_SIZE" using h(2) by simp
      show "length (cache ?s3) = nat CACHE_SIZE" unfolding c3 by simp
      show "length (line_data (cache ?s3 ! nat ((0 div 8) mod 64))) = nat CACHE_LINE_SIZE"
        unfolding line by (simp add: empty_line_def)
      show "\<not> (line_valid (cache ?s3 ! nat ((0 div 8) mod 64)) \<and>
                line_tag (cache ?s3 ! nat ((0 div 8) mod 64)) = 0 div 512)"
        unfolding line by (simp add: empty_line_def)
    qed
    then show ?thesis by simp
  qed
  have m0: "mem' ! 0 = 0" using nth[of 0] by simp
  note t = translate_address_ok[OF l a]
  have "translate_address 0 (reset_simulator rnd) =
      (Inr \<lparr>res_virtual_addr = 0, res_physical_addr = 0, res_value = 0, res_page_num = 0,
            res_frame_num = 0, res_tlb_hit = False, res_cache_hit = False,
            res_log = [TLB_MISS 0, PAGE_FAULT 0 0, TLB_UPDATE 0 0, PHYSICAL_ADDRESS 0,
                       CACHE_MISS 0]\<rparr>,
       \<lparr>main_memory = mem', page_table = [(0, 0)], tlb = [(0, 0)], tlb_queue = [0],
        cache = (replicate (nat CACHE_SIZE) empty_line)
                  [0 := \<lparr>line_tag = 0, line_data = [0, 1, 2, 3, 4, 5, 6, 7],
                         line_valid = True, line_dirty = False\<rparr>],
        stats = \<lparr>tlb_hits = 0, tlb_misses = 1, cache_hits = 0, cache_misses = 1,
                 page_faults = 1, total_accesses = 1\<rparr>\<rparr>)"
    unfolding t by (simp add: reset_simulator_def m0 blk)
  then show ?thesis using h(2) tk dr by blast
qed

subsection \<open>A page fault for a page that is not in the table\<close>

lemma handle_page_fault_fresh:
  assumes "map_of (page_table s) page_num = None"
    and "length (main_memory s) = nat MEMORY_SIZE"
  shows "fst (handle_page_fault page_num s) = Inr (int (length (page_table s)) mod NUM_PAGES) \<and>
     length (main_memory (snd (handle_page_fault page_num s))) = nat MEMORY_SIZE \<and>
     take (nat PAGE_SIZE)
       (drop (nat (int (length (page_table s)) mod NUM_PAGES * PAGE_SIZE))
          (main_memory (snd (handle_page_fault page_num s)))) =
       map (\<lambda>i. (page_num + i) mod 256) (py_range PAGE_SIZE) \<and>
     page_table (snd (handle_page_fault page_num s)) =
       page_table s @ [(page_num, int (length (page_table s)) mod NUM_PAGES)] \<and>
     map_of (page_table (snd (handle_page_fault page_num s))) page_num =
       Some (int (length (page_table s)) mod NUM_PAGES) \<and>
     page_faults (stats (snd (handle_page_fault page_num s))) = page_faults (stats s) + 1"
proof -
  let ?f = "int (length (page_table s)) mod 256"
  from handle_page_fault_ok[OF assms(2), of page_num] obtain mem' where
    h: "handle_page_fault page_num s =
          (Inr ?f, s\<lparr>stats := (stats s)\<lparr>page_faults := page_faults (stats s) + 1\<rparr>,
                     main_memory := mem',
                     page_table := AList.update page_num ?f (page_table s)\<rparr>)"
       "length mem' = nat MEMORY_SIZE"
       "\<forall>j<length mem'. mem' ! j =
           (if ?f * 256 \<le> int j \<and> int j < ?f * 256 + 256
            then (page_num + (int j - ?f * 256)) mod 256 else main_memory s ! j)"
    by blast
  have f: "0 \<le> ?f" "?f < 256" by simp_all
  have len': "length mem' = 65536" using h(2) by (simp add: MEMORY_SIZE_def)
  have st: "nat (?f * 256) + 256 \<le> 65536" using f by linarith
  have fresh: "page_num \<notin> fst ` set (page_table s)"
    using assms(1) by (rule map_of_None_fresh)
  have upd: "AList.update page_num ?f (page_table s) = page_table s @ [(page_num, ?f)]"
    by (rule update_fresh[OF fresh])
  have blk: "take 256 (drop (nat (?f * 256)) mem') =
               map (\<lambda>i. (page_num + i) mod 256) (map int [0..<256])"
  proof (rule nth_equalityI)
    show "length (take 256 (drop (nat (?f * 256)) mem')) =
            length (map (\<lambda>i. (page_num + i) mod 256) (map int [0..<256]))"
      using len' st by simp
  next
    fix j assume "j < length (take 256 (drop (nat (?f * 256)) mem'))"
    then have j: "j < 256" by simp
    have jl: "nat (?f * 256) + j < length mem'" using j st len' by linarith
    have ij: "int (nat (?f * 256) + j) = ?f * 256 + int j" using f(1) by simp
    have "mem' ! (nat (?f * 256) + j) = (page_num + int j) mod 256"
      using h(3)[rule_format, OF jl] j unfolding ij by simp
    then show "take 256 (drop (nat (?f * 256)) mem') ! j =
            map (\<lambda>i. (page_num + i) mod 256) (map int [0..<256]) ! j"
      using j st len' by simp
  qed
  have mo: "map_of (page_table s @ [(page_num, ?f)]) page_num = Some ?f"
    using assms(1) by (simp add: map_add_def)
  show ?thesis
    unfolding h(1) NUM_PAGES_eq upd
    using blk h(2) mo by (simp add: PAGE_SIZE_def py_range_def)
qed

subsection \<open>Direct page faults\<close>

lemma fault_all_snoc: "fault_all (ps @ [p]) s = snd (handle_page_fault p (fault_all ps s))"
  by (induction ps arbitrary: s) simp_all

lemma faults_in_order:
  assumes "n \<le> 256"
  shows "length (main_memory (fault_all (map int [0..<n]) (reset_simulator rnd))) = nat MEMORY_SIZE \<and>
         page_table (fault_all (map int [0..<n]) (reset_simulator rnd)) =
           map (\<lambda>i. (int i, int i)) [0..<n] \<and>
         (1 \<le> n \<longrightarrow> take 256 (main_memory (fault_all (map int [0..<n]) (reset_simulator rnd))) =
           map int [0..<256])"
  using assms
proof (induction n)
  case 0
  then show ?case by (simp add: reset_simulator_def length_random_memory)
next
  case (Suc n)
  let ?s = "fault_all (map int [0..<n]) (reset_simulator rnd)"
  let ?f = "int (length (page_table ?s)) mod 256"
  have ih: "length (main_memory ?s) = nat MEMORY_SIZE"
    "page_table ?s = map (\<lambda>i. (int i, int i)) [0..<n]"
    "1 \<le> n \<longrightarrow> take 256 (main_memory ?s) = map int [0..<256]"
    using Suc by simp_all
  have n: "n < 256" using Suc.prems by simp
  have f: "?f = int n" using n by (simp add: ih(2))
  from handle_page_fault_ok[OF ih(1), of "int n"] obtain mem' where
    h: "handle_page_fault (int n) ?s =
          (Inr ?f, ?s\<lparr>stats := (stats ?s)\<lparr>page_faults := page_faults (stats ?s) + 1\<rparr>,
                      main_memory := mem',
                      page_table := AList.update (int n) ?f (page_table ?s)\<rparr>)"
       "length mem' = nat MEMORY_SIZE"
       "\<forall>j<length mem'. mem' ! j =
           (if ?f * 256 \<le> int j \<and> int j < ?f * 256 + 256
            then (int n + (int j - ?f * 256)) mod 256 else main_memory ?s ! j)"
    by blast
  have e: "fault_all (map int [0..<Suc n]) (reset_simulator rnd) =
             snd (handle_page_fault (int n) ?s)"
    by (simp add: fault_all_snoc)
  have fresh: "int n \<notin> fst ` set (page_table ?s)"
    unfolding ih(2) by (auto simp add: image_iff)
  have upd: "AList.update (int n) ?f (page_table ?s) = map (\<lambda>i. (int i, int i)) [0..<Suc n]"
    using update_fresh[OF fresh, of ?f] unfolding f by (simp add: ih(2))
  have len': "length mem' = 65536" using h(2) by (simp add: MEMORY_SIZE_def)
  have tk: "take 256 mem' = map int [0..<256]"
  proof (rule nth_equalityI)
    show "length (take 256 mem') = length (map int [0..<256])" using len' by simp
  next
    fix j assume "j < length (take 256 mem')"
    then have j: "j < 256" by simp
    then have jl: "j < length mem'" using len' by simp
    show "take 256 mem' ! j = map int [0..<256] ! j"
    proof (cases "n = 0")
      case True
      then show ?thesis using h(3)[rule_format, OF jl] j unfolding f by simp
    next
      case False
      then have "\<not> (int n * 256 \<le> int j)" using j by linarith
      then have "mem' ! j = main_memory ?s ! j"
        using h(3)[rule_format, OF jl] unfolding f by simp
      also have "\<dots> = take 256 (main_memory ?s) ! j" using j by simp
      also have "\<dots> = map int [0..<256] ! j" using ih(3) False by simp
      finally show ?thesis using j by simp
    qed
  qed
  show ?case
    unfolding e h(1) using h(2) upd tk by simp
qed

subsection \<open>Runs on a memory with further bytes behind it\<close>

lemma page_fill_loop_length:
  "length (snd (page_fill_loop start p is mem)) = length mem"
  by (induction "is" arbitrary: mem) (auto split: option.splits)

lemma page_fill_loop_ext:
  "\<forall>i\<in>set is. 0 \<le> start + i \<and> start + i < int (length mem) \<Longrightarrow>
   page_fill_loop start p is (mem @ ext) = (None, snd (page_fill_loop start p is mem) @ ext)"
proof (induction "is" arbitrary: mem)
  case Nil
  then show ?case by simp
next
  case (Cons i rest)
  let ?k = "nat (start + i)"
  have k: "py_index (length mem) (start + i) = Some ?k"
    "py_index (length (mem @ ext)) (start + i) = Some ?k"
    using Cons.prems by (simp_all add: py_index_nonneg)
  have "0 \<le> start + i" "start + i < int (length mem)" using Cons.prems by simp_all
  then have kl: "?k < length mem" by linarith
  have u: "(mem @ ext)[?k := (p + i) mod 256] = mem[?k := (p + i) mod 256] @ ext"
    using kl by (simp add: list_update_append1)
  have "\<forall>j\<in>set rest. 0 \<le> start + j \<and> start + j < int (length (mem[?k := (p + i) mod 256]))"
    using Cons.prems by simp
  from Cons.IH[OF this] show ?case
    by (simp add: k u del: length_append)
qed

lemma cache_fill_loop_ext:
  "\<forall>i\<in>set is. 0 \<le> bs + i \<and> bs + i < int (length mem) \<Longrightarrow>
   cache_fill_loop bs (mem @ ext) is dat = cache_fill_loop bs mem is dat"
proof (induction "is" arbitrary: dat)
  case Nil
  then show ?case by simp
next
  case (Cons i rest)
  let ?k = "nat (bs + i)"
  have k: "py_index (length mem) (bs + i) = Some ?k"
    "py_index (length (mem @ ext)) (bs + i) = Some ?k"
    using Cons.prems by (simp_all add: py_index_nonneg)
  have "0 \<le> bs + i" "bs + i < int (length mem)" using Cons.prems by simp_all
  then have kl: "?k < length mem" by linarith
  have n: "(mem @ ext) ! ?k = mem ! ?k" using kl by (simp add: nth_append)
  have r: "\<forall>i\<in>set rest. 0 \<le> bs + i \<and> bs + i < int (length mem)"
    using Cons.prems by simp
  show ?case
    using Cons.IH[OF r] by (simp add: k n del: length_append split: option.splits)
qed

lemma extend_memory_stats:
  "extend_memory ext (s\<lparr>stats := x\<rparr>) = (extend_memory ext s)\<lparr>stats := x\<rparr>"
  "stats (extend_memory ext s) = stats s"
  by (simp_all add: extend_memory_def)

lemma update_tlb_ext:
  "update_tlb p f (extend_memory ext s) =
     (fst (update_tlb p f s), extend_memory ext (snd (update_tlb p f s)))"
  by (auto simp add: update_tlb_def extend_memory_def Let_def split: list.splits)

lemma frame_indices:
  assumes "0 \<le> f" "f < 256" "length mem = nat MEMORY_SIZE"
  shows "\<forall>i\<in>set (py_range PAGE_SIZE). 0 \<le> f * PAGE_SIZE + i \<and> f * PAGE_SIZE + i < int (length mem)"
proof
  fix i assume "i \<in> set (py_range PAGE_SIZE)"
  then have i: "0 \<le> i" "i < 256" by (simp_all add: set_py_range PAGE_SIZE_def)
  have "int (length mem) = 65536" using assms(3) by (simp add: MEMORY_SIZE_def)
  then show "0 \<le> f * PAGE_SIZE + i \<and> f * PAGE_SIZE + i < int (length mem)"
    unfolding PAGE_SIZE_def using i assms(1,2) by linarith
qed

lemma block_indices:
  assumes "0 \<le> pa" "pa < MEMORY_SIZE" "length mem = nat MEMORY_SIZE"
  shows "\<forall>i\<in>set (py_range CACHE_LINE_SIZE).
           0 \<le> (pa AND NOT (CACHE_LINE_SIZE - 1)) + i \<and>
           (pa AND NOT (CACHE_LINE_SIZE - 1)) + i < int (length mem)"
proof
  fix i assume "i \<in> set (py_range CACHE_LINE_SIZE)"
  then have i: "0 \<le> i" "i < 8" by (simp_all add: set_py_range CACHE_LINE_SIZE_def)
  have l: "int (length mem) = 65536" using assms(3) by (simp add: MEMORY_SIZE_def)
  have "0 \<le> 8 * (pa div 8)" using assms(1) by simp
  moreover have "8 * (pa div 8) + 8 \<le> 65536" using assms(2) by (simp add: MEMORY_SIZE_def)
  ultimately show "0 \<le> (pa AND NOT (CACHE_LINE_SIZE - 1)) + i \<and>
           (pa AND NOT (CACHE_LINE_SIZE - 1)) + i < int (length mem)"
    unfolding block_start_eq l using i by linarith
qed

lemma handle_page_fault_ext:
  assumes "length (main_memory s) = nat MEMORY_SIZE"
  shows "handle_page_fault p (extend_memory ext s) =
           (fst (handle_page_fault p s), extend_memory ext (snd (handle_page_fault p s)))"
proof -
  let ?f = "int (length (page_table s)) mod NUM_PAGES"
  have f: "0 \<le> ?f" "?f < 256" by (simp_all add: NUM_PAGES_eq)
  note ix = frame_indices[OF f assms]
  obtain e mem' where l: "page_fill_loop (?f * PAGE_SIZE) p (py_range PAGE_SIZE) (main_memory s) = (e, mem')"
    by (cases "page_fill_loop (?f * PAGE_SIZE) p (py_range PAGE_SIZE) (main_memory s)")
  have x: "page_fill_loop (?f * PAGE_SIZE) p (py_range PAGE_SIZE) (main_memory s @ ext) =
             (None, mem' @ ext)"
    using page_fill_loop_ext[OF ix, of p ext] l by simp
  from page_fill_loop_ok[OF ix, of p] l have e: "e = None" by auto
  show ?thesis
    using l x unfolding e
    by (simp add: handle_page_fault_def extend_memory_def Let_def)
qed

lemma access_cache_ext:
  assumes "0 \<le> pa" "pa < MEMORY_SIZE" "length (main_memory s) = nat MEMORY_SIZE"
  shows "access_cache pa (extend_memory ext s) =
           (fst (access_cache pa s), extend_memory ext (snd (access_cache pa s)))"
proof -
  note c = cache_fill_loop_ext[OF block_indices[OF assms], of ext]
  show ?thesis
    by (simp add: access_cache_def extend_memory_def Let_def c
             split: prod.splits option.splits)
qed

lemma lookup_frame_miss_table:
  "map_of (tlb s) p = None \<Longrightarrow> map_of (page_table s) p = Some f \<Longrightarrow>
   lookup_frame p s =
     (case update_tlb p f (s\<lparr>stats := (stats s)\<lparr>tlb_misses := tlb_misses (stats s) + 1\<rparr>\<rparr>) of
        (Inl e, s3) \<Rightarrow> (Inl e, s3)
      | (Inr u, s3) \<Rightarrow> (Inr (f, False, [TLB_MISS p, PAGE_TABLE_HIT f, TLB_UPDATE p f]), s3))"
  by (simp add: lookup_frame_def Let_def split: prod.splits sum.splits)

lemma lookup_frame_miss_fault:
  "map_of (tlb s) p = None \<Longrightarrow> map_of (page_table s) p = None \<Longrightarrow>
   lookup_frame p s =
     (case handle_page_fault p (s\<lparr>stats := (stats s)\<lparr>tlb_misses := tlb_misses (stats s) + 1\<rparr>\<rparr>) of
        (Inl e, s2) \<Rightarrow> (Inl e, s2)
      | (Inr f, s2) \<Rightarrow>
          (case update_tlb p f s2 of
             (Inl e, s3) \<Rightarrow> (Inl e, s3)
           | (Inr u, s3) \<Rightarrow> (Inr (f, False, [TLB_MISS p, PAGE_FAULT p f, TLB_UPDATE p f]), s3)))"
  by (simp add: lookup_frame_def Let_def split: prod.splits sum.splits)

lemma lookup_frame_ext:
  assumes "length (main_memory s) = nat MEMORY_SIZE"
  shows "lookup_frame p (extend_memory ext s) =
           (fst (lookup_frame p s), extend_memory ext (snd (lookup_frame p s)))"
proof (cases "map_of (tlb s) p")
  case (Some f)
  then show ?thesis by (simp add: lookup_frame_def extend_memory_def)
next
  case None
  let ?s1 = "s\<lparr>stats := (stats s)\<lparr>tlb_misses := tlb_misses (stats s) + 1\<rparr>\<rparr>"
  have e1: "(extend_memory ext s)\<lparr>stats := (stats (extend_memory ext s))
              \<lparr>tlb_misses := tlb_misses (stats (extend_memory ext s)) + 1\<rparr>\<rparr> = extend_memory ext ?s1"
    by (simp add: extend_memory_def)
  have t: "map_of (tlb (extend_memory ext s)) p = None" using None by (simp add: extend_memory_def)
  show ?thesis
  proof (cases "map_of (page_table s) p")
    case (Some f)
    then have pt: "map_of (page_table (extend_memory ext s)) p = Some f"
      by (simp add: extend_memory_def)
    obtain u s3 where up: "update_tlb p f ?s1 = (u, s3)" by (cases "update_tlb p f ?s1")
    have ux: "update_tlb p f (extend_memory ext ?s1) = (u, extend_memory ext s3)"
      by (simp add: update_tlb_ext up)
    show ?thesis
      unfolding lookup_frame_miss_table[OF None Some] lookup_frame_miss_table[OF t pt] e1 up ux
      by (cases u) simp_all
  next
    case pnone: None
    then have pt: "map_of (page_table (extend_memory ext s)) p = None"
      by (simp add: extend_memory_def)
    have m1: "length (main_memory ?s1) = nat MEMORY_SIZE" using assms by simp
    obtain r s2 where hp: "handle_page_fault p ?s1 = (r, s2)" by (cases "handle_page_fault p ?s1")
    have hx: "handle_page_fault p (extend_memory ext ?s1) = (r, extend_memory ext s2)"
      by (simp add: handle_page_fault_ext[OF m1] hp)
    show ?thesis
    proof (cases r)
      case (Inl e)
      show ?thesis
        unfolding lookup_frame_miss_fault[OF None pnone] lookup_frame_miss_fault[OF t pt] e1 hp hx Inl
        by simp
    next
      case (Inr f)
      obtain u s3 where up: "update_tlb p f s2 = (u, s3)" by (cases "update_tlb p f s2")
      have ux: "update_tlb p f (extend_memory ext s2) = (u, extend_memory ext s3)"
        by (simp add: update_tlb_ext up)
      show ?thesis
        unfolding lookup_frame_miss_fault[OF None pnone] lookup_frame_miss_fault[OF t pt] e1 hp hx Inr
        by (cases u) (simp_all add: up ux)
    qed
  qed
qed

lemma translate_address_ext:
  assumes "sim_inv s"
  shows "translate_address v (extend_memory ext s) =
           (fst (translate_address v s), extend_memory ext (snd (translate_address v s)))"
proof -
  let ?s0 = "s\<lparr>stats := (stats s)\<lparr>total_accesses := total_accesses (stats s) + 1\<rparr>\<rparr>"
  let ?p = "(drop_bit 8 v) AND 255"
  let ?o = "v AND 255"
  have i0: "sim_inv ?s0" using assms by (simp only: inv_stats)
  have p: "0 \<le> ?p" "?p < 256" by (simp_all add: and_255)
  have o: "0 \<le> ?o" "?o < 256" by (simp_all add: and_255)
  have m0: "length (main_memory ?s0) = nat MEMORY_SIZE"
    using assms by (simp add: sim_inv_def shape_ok_def)
  from lookup_frame_inv[OF i0 p] obtain f h lg s1 where
    l: "lookup_frame ?p ?s0 = (Inr (f, h, lg), s1)" "sim_inv s1"
       "0 \<le> f" "f < int (length (page_table s1))"
    by blast
  have lx: "lookup_frame ?p (extend_memory ext ?s0) = (Inr (f, h, lg), extend_memory ext s1)"
    using lookup_frame_ext[OF m0, of ?p ext] l(1) by simp
  let ?pa = "f * PAGE_SIZE + ?o"
  have pa: "0 \<le> ?pa" "?pa < 256 * int (length (page_table s1))"
    using l(3,4) o unfolding PAGE_SIZE_def by linarith+
  from access_cache_inv[OF l(2) pa] obtain val ch s2 where
    a: "access_cache ?pa s1 = (Inr (val, ch), s2)" "?pa < MEMORY_SIZE"
    by blast
  have m1: "length (main_memory s1) = nat MEMORY_SIZE"
    using l(2) by (simp add: sim_inv_def shape_ok_def)
  have ax: "access_cache ?pa (extend_memory ext s1) = (Inr (val, ch), extend_memory ext s2)"
    using access_cache_ext[OF pa(1) a(2) m1, of ext] a(1) by simp
  have e0: "(extend_memory ext s)\<lparr>stats := (stats (extend_memory ext s))
              \<lparr>total_accesses := total_accesses (stats (extend_memory ext s)) + 1\<rparr>\<rparr> =
            extend_memory ext ?s0"
    by (simp add: extend_memory_def)
  note t1 = translate_address_ok[OF l(1) a(1)]
  note t2 = translate_address_ok[of v "extend_memory ext s", unfolded e0, OF lx ax]
  show ?thesis unfolding t1 t2 by simp
qed

section \<open>Claims\<close>

text \<open>
  C2. On a just-reset simulator, whatever the random memory, the first call
  \<^verbatim>\<open>translate_address(0x0000)\<close> returns normally with page number 0, frame 0,
  physical address 0 (so offset 0), value 0, \<^verbatim>\<open>tlb_hit=False\<close> and
  \<^verbatim>\<open>cache_hit=False\<close>; its trace is a TLB miss, a page fault that loads page 0 to
  frame 0, the TLB update, the physical address and a cache miss; afterwards the bytes at
  addresses 0..255 are \<open>i mod 256\<close>, the page table and the TLB hold page 0 at frame 0,
  line 0 of the cache is valid with tag 0 and bytes 0..7, and one TLB miss, one page fault,
  one cache miss and one access are counted.
\<close>

theorem first_translate_after_reset:
  "\<exists>r s'. translate_address 0 (reset_simulator rnd) = (Inr r, s') \<and>
     res_page_num r = 0 \<and> res_frame_num r = 0 \<and> res_physical_addr r = 0 \<and>
     res_value r = 0 \<and> res_tlb_hit r = False \<and> res_cache_hit r = False \<and>
     res_log r = [TLB_MISS 0, PAGE_FAULT 0 0, TLB_UPDATE 0 0, PHYSICAL_ADDRESS 0, CACHE_MISS 0] \<and>
     take (nat PAGE_SIZE) (main_memory s') = map (\<lambda>i. i mod 256) (py_range PAGE_SIZE) \<and>
     page_table s' = [(0, 0)] \<and> tlb s' = [(0, 0)] \<and> tlb_queue s' = [0] \<and>
     cache s' ! 0 = \<lparr>line_tag = 0, line_data = [0, 1, 2, 3, 4, 5, 6, 7],
                      line_valid = True, line_dirty = False\<rparr> \<and>
     stats s' = \<lparr>tlb_hits = 0, tlb_misses = 1, cache_hits = 0, cache_misses = 1,
                 page_faults = 1, total_accesses = 1\<rparr>"
proof -
  from first_access[of rnd] obtain mem' where
    t: "translate_address 0 (reset_simulator rnd) =
      (Inr \<lparr>res_virtual_addr = 0, res_physical_addr = 0, res_value = 0, res_page_num = 0,
            res_frame_num = 0, res_tlb_hit = False, res_cache_hit = False,
            res_log = [TLB_MISS 0, PAGE_FAULT 0 0, TLB_UPDATE 0 0, PHYSICAL_ADDRESS 0,
                       CACHE_MISS 0]\<rparr>,
       \<lparr>main_memory = mem', page_table = [(0, 0)], tlb = [(0, 0)], tlb_queue = [0],
        cache = (replicate (nat CACHE_SIZE) empty_line)
                  [0 := \<lparr>line_tag = 0, line_data = [0, 1, 2, 3, 4, 5, 6, 7],
                         line_valid = True, line_dirty = False\<rparr>],
        stats = \<lparr>tlb_hits = 0, tlb_misses = 1, cache_hits = 0, cache_misses = 1,
                 page_faults = 1, total_accesses = 1\<rparr>\<rparr>)"
    and tk: "take 256 mem' = map int [0..<256]"
    by blast
  have "map (\<lambda>i. i mod 256) (py_range PAGE_SIZE) = map int [0..<256]"
    by (simp add: py_range_def PAGE_SIZE_def)
  then have m: "take (nat PAGE_SIZE) mem' = map (\<lambda>i. i mod 256) (py_range PAGE_SIZE)"
    using tk by (simp add: PAGE_SIZE_def)
  show ?thesis
    unfolding t by (intro exI conjI, rule refl) (simp_all add: m CACHE_SIZE_def)
qed

theorem first_translate_after_reset_witness:
  "\<exists>r s'. translate_address 0 (reset_simulator (\<lambda>i. 7)) = (Inr r, s') \<and>
     res_value r = 0 \<and> res_physical_addr r = 0 \<and> res_tlb_hit r = False \<and>
     res_cache_hit r = False \<and> page_table s' = [(0, 0)]"
  using first_translate_after_reset[of "\<lambda>i. 7"] by blast

text \<open>
  C3. In every state that a sequence of \<^verbatim>\<open>translate_address\<close> calls reaches from a
  reset state, every valid cache line holds \<^const>\<open>CACHE_LINE_SIZE\<close> bytes, and they are
  the bytes that physical memory holds now in the aligned block that the line's tag and
  position name.
\<close>

theorem valid_lines_mirror_memory:
  "\<forall>n<length (cache (run vs (reset_simulator rnd))).
     line_valid (cache (run vs (reset_simulator rnd)) ! n) \<longrightarrow>
       0 \<le> block_address (line_tag (cache (run vs (reset_simulator rnd)) ! n)) (int n) \<and>
       length (line_data (cache (run vs (reset_simulator rnd)) ! n)) = nat CACHE_LINE_SIZE \<and>
       line_data (cache (run vs (reset_simulator rnd)) ! n) =
         memory_block (main_memory (run vs (reset_simulator rnd)))
           (nat (block_address (line_tag (cache (run vs (reset_simulator rnd)) ! n)) (int n)))"
proof (intro allI impI)
  let ?s = "run vs (reset_simulator rnd)"
  fix n assume n: "n < length (cache ?s)" and v: "line_valid (cache ?s ! n)"
  have i: "sim_inv ?s" by (rule sim_inv_run[OF sim_inv_reset])
  then have co: "cache_ok ?s" and sh: "shape_ok ?s" by (simp_all add: sim_inv_def)
  have a: "0 \<le> line_tag (cache ?s ! n)"
    and b: "line_data (cache ?s ! n) =
         memory_block (main_memory ?s) (nat (block_address (line_tag (cache ?s ! n)) (int n)))"
    using co n v unfolding cache_ok_def by blast+
  have "cache ?s ! n \<in> set (cache ?s)" using n by (rule nth_mem)
  then have c: "length (line_data (cache ?s ! n)) = nat CACHE_LINE_SIZE"
    using sh unfolding shape_ok_def by blast
  have d: "0 \<le> block_address (line_tag (cache ?s ! n)) (int n)"
    using a by (simp add: block_address_eq)
  show "0 \<le> block_address (line_tag (cache ?s ! n)) (int n) \<and>
       length (line_data (cache ?s ! n)) = nat CACHE_LINE_SIZE \<and>
       line_data (cache ?s ! n) =
         memory_block (main_memory ?s) (nat (block_address (line_tag (cache ?s ! n)) (int n)))"
    using d c b by blast
qed

theorem valid_lines_mirror_memory_witness:
  "0 < length (cache (run [0] (reset_simulator (\<lambda>i. 7)))) \<and>
   line_valid (cache (run [0] (reset_simulator (\<lambda>i. 7))) ! 0) \<and>
   line_data (cache (run [0] (reset_simulator (\<lambda>i. 7))) ! 0) =
     memory_block (main_memory (run [0] (reset_simulator (\<lambda>i. 7))))
       (nat (block_address (line_tag (cache (run [0] (reset_simulator (\<lambda>i. 7))) ! 0)) (int 0)))"
proof -
  let ?s = "run [0] (reset_simulator (\<lambda>i. 7))"
  from first_access[of "\<lambda>i. 7"] obtain mem' where
    "?s = \<lparr>main_memory = mem', page_table = [(0, 0)], tlb = [(0, 0)], tlb_queue = [0],
        cache = (replicate (nat CACHE_SIZE) empty_line)
                  [0 := \<lparr>line_tag = 0, line_data = [0, 1, 2, 3, 4, 5, 6, 7],
                         line_valid = True, line_dirty = False\<rparr>],
        stats = \<lparr>tlb_hits = 0, tlb_misses = 1, cache_hits = 0, cache_misses = 1,
                 page_faults = 1, total_accesses = 1\<rparr>\<rparr>"
    by auto
  then have h: "0 < length (cache ?s)" "line_valid (cache ?s ! 0)"
    by (simp_all add: CACHE_SIZE_def)
  show ?thesis
    using valid_lines_mirror_memory[of "[0]" "\<lambda>i. 7", rule_format, OF h] h by blast
qed

text \<open>
  C5. In every state that a sequence of \<^verbatim>\<open>translate_address\<close> and
  \<^verbatim>\<open>reset_simulator\<close> calls reaches from a reset state, the TLB holds at most
  \<^const>\<open>TLB_SIZE\<close> entries and the pages in the queue are the keys of the TLB.
\<close>

theorem tlb_bounded_and_queue_matches:
  "int (length (tlb (exec_all ops (reset_simulator rnd)))) \<le> TLB_SIZE \<and>
   set (tlb_queue (exec_all ops (reset_simulator rnd))) =
     fst ` set (tlb (exec_all ops (reset_simulator rnd)))"
proof -
  have "sim_inv (exec_all ops (reset_simulator rnd))"
    by (rule sim_inv_exec_all[OF sim_inv_reset])
  then have "tlb_ok (exec_all ops (reset_simulator rnd))" by (simp add: sim_inv_def)
  then show ?thesis by (auto simp add: tlb_ok_def)
qed

theorem tlb_bounded_and_queue_matches_witness:
  "int (length (tlb (exec_all [Translate 0, Reset (\<lambda>i. 3), Translate 512]
                      (reset_simulator (\<lambda>i. 7))))) \<le> TLB_SIZE \<and>
   set (tlb_queue (exec_all [Translate 0, Reset (\<lambda>i. 3), Translate 512]
                      (reset_simulator (\<lambda>i. 7)))) =
     fst ` set (tlb (exec_all [Translate 0, Reset (\<lambda>i. 3), Translate 512]
                      (reset_simulator (\<lambda>i. 7))))"
  by (rule tlb_bounded_and_queue_matches)

text \<open>
  C7. After the \<open>N\<close> calls of a run from a reset state, \<^verbatim>\<open>total_accesses\<close> is
  \<open>N\<close> and equals both \<^verbatim>\<open>tlb_hits + tlb_misses\<close> and
  \<^verbatim>\<open>cache_hits + cache_misses\<close>; and in any state whatever, a call of
  \<^verbatim>\<open>translate_address\<close> lowers none of the six counters.
\<close>

theorem counters_after_run:
  "total_accesses (stats (run vs (reset_simulator rnd))) = int (length vs) \<and>
   tlb_hits (stats (run vs (reset_simulator rnd))) +
     tlb_misses (stats (run vs (reset_simulator rnd))) =
     total_accesses (stats (run vs (reset_simulator rnd))) \<and>
   cache_hits (stats (run vs (reset_simulator rnd))) +
     cache_misses (stats (run vs (reset_simulator rnd))) =
     total_accesses (stats (run vs (reset_simulator rnd))) \<and>
   tlb_hits (stats s) \<le> tlb_hits (stats (snd (translate_address v s))) \<and>
   tlb_misses (stats s) \<le> tlb_misses (stats (snd (translate_address v s))) \<and>
   cache_hits (stats s) \<le> cache_hits (stats (snd (translate_address v s))) \<and>
   cache_misses (stats s) \<le> cache_misses (stats (snd (translate_address v s))) \<and>
   page_faults (stats s) \<le> page_faults (stats (snd (translate_address v s))) \<and>
   total_accesses (stats s) \<le> total_accesses (stats (snd (translate_address v s)))"
proof -
  have z: "stats (reset_simulator rnd) =
             \<lparr>tlb_hits = 0, tlb_misses = 0, cache_hits = 0,
              cache_misses = 0, page_faults = 0, total_accesses = 0\<rparr>"
    by (simp add: reset_simulator_def)
  have a: "total_accesses (stats (run vs (reset_simulator rnd))) = int (length vs) \<and>
   tlb_hits (stats (run vs (reset_simulator rnd))) +
     tlb_misses (stats (run vs (reset_simulator rnd))) =
     total_accesses (stats (run vs (reset_simulator rnd))) \<and>
   cache_hits (stats (run vs (reset_simulator rnd))) +
     cache_misses (stats (run vs (reset_simulator rnd))) =
     total_accesses (stats (run vs (reset_simulator rnd)))"
    using run_counts[OF sim_inv_reset, of vs rnd] by (simp add: z)
  have b: "stats_le (stats s) (stats (snd (translate_address v s)))"
    by (rule stats_translate_address)
  show ?thesis using a b unfolding stats_le_def by blast
qed

theorem counters_after_run_witness:
  "total_accesses (stats (run [0, 256, 0] (reset_simulator (\<lambda>i. 7)))) = 3 \<and>
   tlb_hits (stats (run [0, 256, 0] (reset_simulator (\<lambda>i. 7)))) +
     tlb_misses (stats (run [0, 256, 0] (reset_simulator (\<lambda>i. 7)))) = 3 \<and>
   cache_hits (stats (run [0, 256, 0] (reset_simulator (\<lambda>i. 7)))) +
     cache_misses (stats (run [0, 256, 0] (reset_simulator (\<lambda>i. 7)))) = 3"
  using counters_after_run[of "[0, 256, 0]" "\<lambda>i. 7"] by simp

text \<open>
  C9. In every state that a run from a reset state reaches, a call of
  \<^verbatim>\<open>translate_address\<close> with any integer (in particular any address in
  \<open>[0, 0xFFFF]\<close>) raises nothing; its physical address is
  \<^verbatim>\<open>frame_num * PAGE_SIZE + offset\<close> and lies in \<open>[0, MEMORY_SIZE)\<close>, and the
  memory has \<^const>\<open>MEMORY_SIZE\<close> bytes before and after. No memory access of the call
  is out of range: run on the memory with any further bytes behind it, the call returns the
  same result and leaves those bytes as they are, so that it uses no index from
  \<^const>\<open>MEMORY_SIZE\<close> on and no negative index. The same holds of the two loops
  taken alone. The page fill loop, as \<^verbatim>\<open>handle_page_fault\<close> runs it in this state
  for any page, raises nothing, keeps the length of the memory and does to the memory what
  it does without the further bytes, which it leaves alone; its indices
  \<^verbatim>\<open>start_addr + i\<close> lie in \<open>[0, MEMORY_SIZE)\<close>, also for the frame of this
  call. The cache fill loop, as \<^verbatim>\<open>access_cache\<close> runs it for the physical address
  of this call, reads the same bytes whatever lies behind the memory, raises nothing on a
  line of \<^const>\<open>CACHE_LINE_SIZE\<close> bytes and fills it with the block at
  \<^verbatim>\<open>block_start\<close>; its indices \<^verbatim>\<open>block_start + i\<close> lie in
  \<open>[0, MEMORY_SIZE)\<close>.
\<close>

theorem translate_stays_in_memory:
  "\<exists>r s'. translate_address v (run vs (reset_simulator rnd)) = (Inr r, s') \<and>
     res_physical_addr r = res_frame_num r * PAGE_SIZE + (v AND 255) \<and>
     0 \<le> res_physical_addr r \<and> res_physical_addr r < MEMORY_SIZE \<and>
     int (length (main_memory (run vs (reset_simulator rnd)))) = MEMORY_SIZE \<and>
     int (length (main_memory s')) = MEMORY_SIZE \<and>
     (\<forall>ext. translate_address v (extend_memory ext (run vs (reset_simulator rnd))) =
        (Inr r, extend_memory ext s')) \<and>
     (\<forall>ext page_num.
        page_fill_loop
          (int (length (page_table (run vs (reset_simulator rnd)))) mod NUM_PAGES * PAGE_SIZE)
          page_num (py_range PAGE_SIZE) (main_memory (run vs (reset_simulator rnd)) @ ext) =
        (None,
         snd (page_fill_loop
           (int (length (page_table (run vs (reset_simulator rnd)))) mod NUM_PAGES * PAGE_SIZE)
           page_num (py_range PAGE_SIZE) (main_memory (run vs (reset_simulator rnd)))) @ ext) \<and>
        length (snd (page_fill_loop
           (int (length (page_table (run vs (reset_simulator rnd)))) mod NUM_PAGES * PAGE_SIZE)
           page_num (py_range PAGE_SIZE) (main_memory (run vs (reset_simulator rnd))))) =
          length (main_memory (run vs (reset_simulator rnd)))) \<and>
     (\<forall>i\<in>set (py_range PAGE_SIZE).
        0 \<le> int (length (page_table (run vs (reset_simulator rnd)))) mod NUM_PAGES * PAGE_SIZE + i \<and>
        int (length (page_table (run vs (reset_simulator rnd)))) mod NUM_PAGES * PAGE_SIZE + i
          < MEMORY_SIZE) \<and>
     (\<forall>i\<in>set (py_range PAGE_SIZE).
        0 \<le> res_frame_num r * PAGE_SIZE + i \<and>
        res_frame_num r * PAGE_SIZE + i < MEMORY_SIZE) \<and>
     (\<forall>ext dat.
        cache_fill_loop (res_physical_addr r AND NOT (CACHE_LINE_SIZE - 1))
          (main_memory s' @ ext) (py_range CACHE_LINE_SIZE) dat =
        cache_fill_loop (res_physical_addr r AND NOT (CACHE_LINE_SIZE - 1))
          (main_memory s') (py_range CACHE_LINE_SIZE) dat) \<and>
     (\<forall>dat. length dat = nat CACHE_LINE_SIZE \<longrightarrow>
        cache_fill_loop (res_physical_addr r AND NOT (CACHE_LINE_SIZE - 1))
          (main_memory s') (py_range CACHE_LINE_SIZE) dat =
        (None, memory_block (main_memory s')
                 (nat (res_physical_addr r AND NOT (CACHE_LINE_SIZE - 1))))) \<and>
     (\<forall>i\<in>set (py_range CACHE_LINE_SIZE).
        0 \<le> (res_physical_addr r AND NOT (CACHE_LINE_SIZE - 1)) + i \<and>
        (res_physical_addr r AND NOT (CACHE_LINE_SIZE - 1)) + i < MEMORY_SIZE)"
proof -
  let ?s = "run vs (reset_simulator rnd)"
  let ?st = "int (length (page_table ?s)) mod NUM_PAGES * PAGE_SIZE"
  have i: "sim_inv ?s" by (rule sim_inv_run[OF sim_inv_reset])
  from translate_address_inv[OF i, of v] obtain r s' where
    t: "translate_address v ?s = (Inr r, s')" "sim_inv s'"
       "0 \<le> res_frame_num r" "res_frame_num r < NUM_PAGES"
       "res_physical_addr r = res_frame_num r * PAGE_SIZE + (v AND 255)"
       "0 \<le> res_physical_addr r" "res_physical_addr r < MEMORY_SIZE"
    by blast
  let ?bs = "res_physical_addr r AND NOT (CACHE_LINE_SIZE - 1)"
  have n1: "length (main_memory ?s) = nat MEMORY_SIZE"
    using i by (simp add: sim_inv_def shape_ok_def)
  have n2: "length (main_memory s') = nat MEMORY_SIZE"
    using t(2) by (simp add: sim_inv_def shape_ok_def)
  have l1: "int (length (main_memory ?s)) = MEMORY_SIZE"
    using n1 by (simp add: MEMORY_SIZE_def)
  have l2: "int (length (main_memory s')) = MEMORY_SIZE"
    using n2 by (simp add: MEMORY_SIZE_def)
  have whole: "\<forall>ext. translate_address v (extend_memory ext ?s) = (Inr r, extend_memory ext s')"
    using translate_address_ext[OF i, of v] t(1) by simp
  have fh: "0 \<le> int (length (page_table ?s)) mod NUM_PAGES"
    "int (length (page_table ?s)) mod NUM_PAGES < 256"
    by (simp_all add: NUM_PAGES_eq)
  note ixh = frame_indices[OF fh n1]
  have pl: "\<forall>ext page_num.
        page_fill_loop ?st page_num (py_range PAGE_SIZE) (main_memory ?s @ ext) =
        (None, snd (page_fill_loop ?st page_num (py_range PAGE_SIZE) (main_memory ?s)) @ ext) \<and>
        length (snd (page_fill_loop ?st page_num (py_range PAGE_SIZE) (main_memory ?s))) =
          length (main_memory ?s)"
    using page_fill_loop_ext[OF ixh] page_fill_loop_length by blast
  have ph: "\<forall>i\<in>set (py_range PAGE_SIZE). 0 \<le> ?st + i \<and> ?st + i < MEMORY_SIZE"
    using ixh unfolding l1 .
  have fr: "res_frame_num r < 256" using t(4) by (simp add: NUM_PAGES_eq)
  have p: "\<forall>i\<in>set (py_range PAGE_SIZE).
        0 \<le> res_frame_num r * PAGE_SIZE + i \<and>
        res_frame_num r * PAGE_SIZE + i < MEMORY_SIZE"
    using frame_indices[OF t(3) fr n1] unfolding l1 .
  note ixc = block_indices[OF t(6,7) n2]
  have c: "\<forall>i\<in>set (py_range CACHE_LINE_SIZE). 0 \<le> ?bs + i \<and> ?bs + i < MEMORY_SIZE"
    using ixc unfolding l2 .
  have ce: "\<forall>ext dat.
        cache_fill_loop ?bs (main_memory s' @ ext) (py_range CACHE_LINE_SIZE) dat =
        cache_fill_loop ?bs (main_memory s') (py_range CACHE_LINE_SIZE) dat"
    using cache_fill_loop_ext[OF ixc] by blast
  have b0: "0 \<le> ?bs" "?bs + 8 \<le> int (length (main_memory s'))"
    using t(6,7) unfolding block_start_eq l2 by (simp_all add: MEMORY_SIZE_def)
  have cf: "\<forall>dat. length dat = nat CACHE_LINE_SIZE \<longrightarrow>
        cache_fill_loop ?bs (main_memory s') (py_range CACHE_LINE_SIZE) dat =
        (None, memory_block (main_memory s') (nat ?bs))"
    using cache_fill_block[OF b0] by (simp add: CACHE_LINE_SIZE_def)
  show ?thesis
    by (rule exI[of _ r], rule exI[of _ s'], intro conjI)
       (rule t(1) t(5) t(6) t(7) l1 l2 whole pl ph p ce cf c)+
qed

theorem translate_stays_in_memory_witness:
  "\<exists>r s'. translate_address 65535 (run [0, 4660] (reset_simulator (\<lambda>i. 7))) = (Inr r, s') \<and>
     0 \<le> res_physical_addr r \<and> res_physical_addr r < MEMORY_SIZE \<and>
     translate_address 65535 (extend_memory [300, - 1] (run [0, 4660] (reset_simulator (\<lambda>i. 7)))) =
       (Inr r, extend_memory [300, - 1] s') \<and>
     3 \<in> set (py_range CACHE_LINE_SIZE) \<and>
     0 \<le> (res_physical_addr r AND NOT (CACHE_LINE_SIZE - 1)) + 3 \<and>
     (res_physical_addr r AND NOT (CACHE_LINE_SIZE - 1)) + 3 < MEMORY_SIZE \<and>
     200 \<in> set (py_range PAGE_SIZE) \<and>
     0 \<le> res_frame_num r * PAGE_SIZE + 200 \<and>
     res_frame_num r * PAGE_SIZE + 200 < MEMORY_SIZE \<and>
     length [0, 0, 0, 0, 0, 0, 0, 0 :: int] = nat CACHE_LINE_SIZE \<and>
     cache_fill_loop (res_physical_addr r AND NOT (CACHE_LINE_SIZE - 1))
       (main_memory s') (py_range CACHE_LINE_SIZE) [0, 0, 0, 0, 0, 0, 0, 0] =
       (None, memory_block (main_memory s')
                (nat (res_physical_addr r AND NOT (CACHE_LINE_SIZE - 1))))"
proof -
  have a: "3 \<in> set (py_range CACHE_LINE_SIZE)" by (simp add: set_py_range CACHE_LINE_SIZE_def)
  have b: "200 \<in> set (py_range PAGE_SIZE)" by (simp add: set_py_range PAGE_SIZE_def)
  have c: "length [0, 0, 0, 0, 0, 0, 0, 0 :: int] = nat CACHE_LINE_SIZE"
    by (simp add: CACHE_LINE_SIZE_def)
  from translate_stays_in_memory[of 65535 "[0, 4660]" "\<lambda>i. 7"] a b c show ?thesis
    by blast
qed

text \<open>
  C4. In every state whose memory has \<^const>\<open>MEMORY_SIZE\<close> bytes and for every page
  number that is not in the page table, \<^verbatim>\<open>handle_page_fault\<close> returns the frame
  number \<open>len(page_table) mod NUM_PAGES\<close>, leaves the memory as long as it was with the
  bytes \<open>(page_num + i) mod 256\<close> at the addresses \<open>frame_num * PAGE_SIZE + i\<close> for
  \<open>i\<close> in \<open>0..255\<close>, appends the entry of the page with this frame to the page table,
  and adds exactly one to \<^verbatim>\<open>page_faults\<close>.
\<close>

theorem handle_page_fault_effect:
  assumes "map_of (page_table s) page_num = None"
    and "length (main_memory s) = nat MEMORY_SIZE"
  shows "fst (handle_page_fault page_num s) = Inr (int (length (page_table s)) mod NUM_PAGES) \<and>
     length (main_memory (snd (handle_page_fault page_num s))) = nat MEMORY_SIZE \<and>
     take (nat PAGE_SIZE)
       (drop (nat (int (length (page_table s)) mod NUM_PAGES * PAGE_SIZE))
          (main_memory (snd (handle_page_fault page_num s)))) =
       map (\<lambda>i. (page_num + i) mod 256) (py_range PAGE_SIZE) \<and>
     page_table (snd (handle_page_fault page_num s)) =
       page_table s @ [(page_num, int (length (page_table s)) mod NUM_PAGES)] \<and>
     map_of (page_table (snd (handle_page_fault page_num s))) page_num =
       Some (int (length (page_table s)) mod NUM_PAGES) \<and>
     page_faults (stats (snd (handle_page_fault page_num s))) = page_faults (stats s) + 1"
  using assms by (rule handle_page_fault_fresh)

theorem handle_page_fault_effect_witness:
  "map_of (page_table (reset_simulator (\<lambda>i. 7))) 300 = None \<and>
   length (main_memory (reset_simulator (\<lambda>i. 7))) = nat MEMORY_SIZE \<and>
   fst (handle_page_fault 300 (reset_simulator (\<lambda>i. 7))) = Inr 0 \<and>
   page_table (snd (handle_page_fault 300 (reset_simulator (\<lambda>i. 7)))) = [(300, 0)] \<and>
   page_faults (stats (snd (handle_page_fault 300 (reset_simulator (\<lambda>i. 7))))) = 1"
proof -
  have a: "map_of (page_table (reset_simulator (\<lambda>i. 7))) 300 = None"
    by (simp add: reset_simulator_def)
  have b: "length (main_memory (reset_simulator (\<lambda>i. 7))) = nat MEMORY_SIZE"
    by (simp add: reset_simulator_def length_random_memory)
  have c: "page_table (reset_simulator (\<lambda>i. 7)) = []"
          "page_faults (stats (reset_simulator (\<lambda>i. 7))) = 0"
    by (simp_all add: reset_simulator_def)
  show ?thesis
    using handle_page_fault_effect[OF a b] a b by (simp add: c)
qed

text \<open>
  C8. In a state with the sizes of initialisation, for every physical address in
  \<open>[0, MEMORY_SIZE)\<close> whose line is invalid or holds another tag, \<^verbatim>\<open>access_cache\<close>
  returns \<^verbatim>\<open>was_hit=False\<close> with the byte at the address's low three bits in the
  8-byte aligned block of memory that contains the address, which is the byte of memory at
  the address; afterwards the line is valid and clean, its tag is the address shifted right
  by 9 and its data is that block; the memory is as before and one cache miss is counted.
\<close>

theorem access_cache_fills_line:
  assumes "0 \<le> physical_addr" and "physical_addr < MEMORY_SIZE" and "shape_ok s"
    and "get_cache_components physical_addr = (tag, index, offset)"
    and "\<not> (line_valid (cache s ! nat index) \<and> line_tag (cache s ! nat index) = tag)"
  shows "fst (access_cache physical_addr s) =
           Inr (memory_block (main_memory s) (nat physical_addr div 8 * 8)
                  ! nat (physical_addr AND 7), False) \<and>
         memory_block (main_memory s) (nat physical_addr div 8 * 8) ! nat (physical_addr AND 7) =
           main_memory s ! nat physical_addr \<and>
         cache (snd (access_cache physical_addr s)) ! nat index =
           \<lparr>line_tag = drop_bit 9 physical_addr,
            line_data = memory_block (main_memory s) (nat physical_addr div 8 * 8),
            line_valid = True, line_dirty = False\<rparr> \<and>
         length (memory_block (main_memory s) (nat physical_addr div 8 * 8)) = 8 \<and>
         main_memory (snd (access_cache physical_addr s)) = main_memory s \<and>
         cache_misses (stats (snd (access_cache physical_addr s))) = cache_misses (stats s) + 1"
proof -
  let ?n = "nat ((physical_addr div 8) mod 64)"
  let ?blk = "memory_block (main_memory s) (8 * (nat physical_addr div 8))"
  have g: "tag = physical_addr div 512" "index = (physical_addr div 8) mod 64"
    using assms(4) by (simp_all add: get_cache_components_eq)
  have memlen: "length (main_memory s) = nat MEMORY_SIZE"
    and c: "length (cache s) = nat CACHE_SIZE"
    using assms(3) by (simp_all add: shape_ok_def)
  have n: "?n < length (cache s)" using c by (simp add: CACHE_SIZE_def)
  then have "cache s ! ?n \<in> set (cache s)" by (rule nth_mem)
  then have d: "length (line_data (cache s ! ?n)) = nat CACHE_LINE_SIZE"
    using assms(3) by (simp add: shape_ok_def)
  have miss: "\<not> (line_valid (cache s ! ?n) \<and> line_tag (cache s ! ?n) = physical_addr div 512)"
    using assms(5) unfolding g .
  note a = access_cache_miss[OF assms(1,2) memlen c d miss]
  have "nat physical_addr < 65536" using assms(1,2) by (simp add: MEMORY_SIZE_def)
  then have "8 * (nat physical_addr div 8) + 8 \<le> length (main_memory s)"
    using memlen by (simp add: MEMORY_SIZE_def)
  note bl = memory_block_length[OF this] memory_block_nth[OF this, of "nat (physical_addr mod 8)"]
  have "8 * (nat physical_addr div 8) + nat (physical_addr mod 8) = nat physical_addr"
    using assms(1) by (simp add: nat_mod_distrib)
  then have v: "?blk ! nat (physical_addr mod 8) = main_memory s ! nat physical_addr"
    using bl(2) by simp
  have sw: "nat physical_addr div 8 * 8 = 8 * (nat physical_addr div 8)" by simp
  show ?thesis
    unfolding a sw g using n v bl(1)
    by (simp add: and_7 drop_bit_eq_div)
qed

theorem access_cache_fills_line_witness:
  "(0::int) \<le> 1000 \<and> 1000 < MEMORY_SIZE \<and> shape_ok (reset_simulator (\<lambda>i. 7)) \<and>
   get_cache_components 1000 = (1, 61, 0) \<and>
   \<not> (line_valid (cache (reset_simulator (\<lambda>i. 7)) ! nat 61) \<and>
      line_tag (cache (reset_simulator (\<lambda>i. 7)) ! nat 61) = 1) \<and>
   fst (access_cache 1000 (reset_simulator (\<lambda>i. 7))) =
     Inr (main_memory (reset_simulator (\<lambda>i. 7)) ! nat 1000, False) \<and>
   line_valid (cache (snd (access_cache 1000 (reset_simulator (\<lambda>i. 7)))) ! nat 61) \<and>
   line_tag (cache (snd (access_cache 1000 (reset_simulator (\<lambda>i. 7)))) ! nat 61) = 1"
proof -
  have a: "(0::int) \<le> 1000" "1000 < MEMORY_SIZE" by (simp_all add: MEMORY_SIZE_def)
  have b: "shape_ok (reset_simulator (\<lambda>i. 7))"
    using sim_inv_reset[of "\<lambda>i. 7"] by (simp add: sim_inv_def)
  have c: "get_cache_components 1000 = (1, 61, 0)" by (simp add: get_cache_components_eq)
  have d: "\<not> (line_valid (cache (reset_simulator (\<lambda>i. 7)) ! nat 61) \<and>
      line_tag (cache (reset_simulator (\<lambda>i. 7)) ! nat 61) = 1)"
    by (simp add: reset_simulator_def CACHE_SIZE_def empty_line_def)
  from access_cache_fills_line[OF a b c d] have
    e: "fst (access_cache 1000 (reset_simulator (\<lambda>i. 7))) =
           Inr (memory_block (main_memory (reset_simulator (\<lambda>i. 7))) (nat 1000 div 8 * 8)
                  ! nat (1000 AND 7), False)"
       "memory_block (main_memory (reset_simulator (\<lambda>i. 7))) (nat 1000 div 8 * 8) ! nat (1000 AND 7) =
           main_memory (reset_simulator (\<lambda>i. 7)) ! nat 1000"
       "cache (snd (access_cache 1000 (reset_simulator (\<lambda>i. 7)))) ! nat 61 =
           \<lparr>line_tag = drop_bit 9 1000,
            line_data = memory_block (main_memory (reset_simulator (\<lambda>i. 7))) (nat 1000 div 8 * 8),
            line_valid = True, line_dirty = False\<rparr>"
    by blast+
  have f: "drop_bit 9 (1000::int) = 1" by (simp add: drop_bit_eq_div)
  show ?thesis
    using a b c d unfolding e(1) e(2) e(3) f by simp
qed

text \<open>
  C10. In every state and for every virtual address whose page number is in the TLB,
  \<^verbatim>\<open>translate_address\<close> leaves the memory, the page table, the TLB and its queue as
  they were, and the cache differs from the one before at most in the line at the position
  that the index bits of the physical address select.
\<close>

theorem tlb_hit_changes_one_line:
  assumes "map_of (tlb s) ((drop_bit 8 virtual_addr) AND 255) = Some frame_num"
    and "get_cache_components (frame_num * PAGE_SIZE + (virtual_addr AND 255)) =
           (tag, index, offset)"
  shows "main_memory (snd (translate_address virtual_addr s)) = main_memory s \<and>
         page_table (snd (translate_address virtual_addr s)) = page_table s \<and>
         tlb (snd (translate_address virtual_addr s)) = tlb s \<and>
         tlb_queue (snd (translate_address virtual_addr s)) = tlb_queue s \<and>
         cache (snd (translate_address virtual_addr s)) =
           (cache s)[nat index := cache (snd (translate_address virtual_addr s)) ! nat index]"
proof -
  let ?s0 = "s\<lparr>stats := (stats s)\<lparr>total_accesses := total_accesses (stats s) + 1\<rparr>\<rparr>"
  let ?s1 = "?s0\<lparr>stats := (stats ?s0)\<lparr>tlb_hits := tlb_hits (stats ?s0) + 1\<rparr>\<rparr>"
  let ?pa = "frame_num * PAGE_SIZE + (virtual_addr AND 255)"
  have t0: "map_of (tlb ?s0) ((drop_bit 8 virtual_addr) AND 255) = Some frame_num"
    using assms(1) by simp
  have l: "lookup_frame ((drop_bit 8 virtual_addr) AND 255) ?s0 =
             (Inr (frame_num, True, [TLB_HIT ((drop_bit 8 virtual_addr) AND 255) frame_num]), ?s1)"
    by (rule lookup_frame_hit[OF t0])
  have e: "snd (translate_address virtual_addr s) = snd (access_cache ?pa ?s1)"
    using l by (simp add: translate_address_def Let_def split: prod.splits sum.splits)
  have i: "index = (?pa div 8) mod 64"
    using assms(2) by (simp add: get_cache_components_eq)
  have s1: "main_memory ?s1 = main_memory s" "page_table ?s1 = page_table s"
    "tlb ?s1 = tlb s" "tlb_queue ?s1 = tlb_queue s" "cache ?s1 = cache s"
    by simp_all
  show ?thesis
    unfolding e i using access_cache_frame[of ?pa ?s1] unfolding s1 by blast
qed

theorem tlb_hit_changes_one_line_witness:
  "map_of (tlb (run [0] (reset_simulator (\<lambda>i. 7)))) ((drop_bit 8 5) AND 255) = Some 0 \<and>
   get_cache_components (0 * PAGE_SIZE + (5 AND 255)) = (0, 0, 5) \<and>
   main_memory (snd (translate_address 5 (run [0] (reset_simulator (\<lambda>i. 7))))) =
     main_memory (run [0] (reset_simulator (\<lambda>i. 7))) \<and>
   page_table (snd (translate_address 5 (run [0] (reset_simulator (\<lambda>i. 7))))) =
     page_table (run [0] (reset_simulator (\<lambda>i. 7))) \<and>
   tlb (snd (translate_address 5 (run [0] (reset_simulator (\<lambda>i. 7))))) =
     tlb (run [0] (reset_simulator (\<lambda>i. 7))) \<and>
   tlb_queue (snd (translate_address 5 (run [0] (reset_simulator (\<lambda>i. 7))))) =
     tlb_queue (run [0] (reset_simulator (\<lambda>i. 7)))"
proof -
  let ?s = "run [0] (reset_simulator (\<lambda>i. 7))"
  from first_access[of "\<lambda>i. 7"] have "tlb ?s = [(0, 0)]" by auto
  then have a: "map_of (tlb ?s) ((drop_bit 8 5) AND 255) = Some 0"
    by (simp add: drop_bit_eq_div)
  have b: "get_cache_components (0 * PAGE_SIZE + (5 AND 255)) = (0, 0, 5)"
    by (simp add: get_cache_components_eq and_255)
  from tlb_hit_changes_one_line[OF a b] a b show ?thesis by blast
qed

text \<open>
  C6. From an empty TLB, the first 16 of the calls \<^verbatim>\<open>update_tlb(p, f(p))\<close> for
  \<open>p = 0, \<dots>, 16\<close> evict nothing, and the 17th evicts page 0 and only page 0: the TLB
  then holds exactly the pages 1 to 16 with their frames, page 0 is not in it, and the queue
  lists 1 to 16 with the oldest of them, page 1, at its front. No call raises.
\<close>

theorem fifo_evicts_page_zero:
  "update_tlb_all
     [(0, f 0), (1, f 1), (2, f 2), (3, f 3), (4, f 4), (5, f 5), (6, f 6), (7, f 7),
      (8, f 8), (9, f 9), (10, f 10), (11, f 11), (12, f 12), (13, f 13), (14, f 14),
      (15, f 15)]
     (s\<lparr>tlb := [], tlb_queue := []\<rparr>) =
   (None,
    s\<lparr>tlb := [(0, f 0), (1, f 1), (2, f 2), (3, f 3), (4, f 4), (5, f 5), (6, f 6), (7, f 7),
              (8, f 8), (9, f 9), (10, f 10), (11, f 11), (12, f 12), (13, f 13), (14, f 14),
              (15, f 15)],
      tlb_queue := [0, 1, 2, 3, 4, 5, 6, 7, 8, 9, 10, 11, 12, 13, 14, 15]\<rparr>) \<and>
   update_tlb_all
     [(0, f 0), (1, f 1), (2, f 2), (3, f 3), (4, f 4), (5, f 5), (6, f 6), (7, f 7),
      (8, f 8), (9, f 9), (10, f 10), (11, f 11), (12, f 12), (13, f 13), (14, f 14),
      (15, f 15), (16, f 16)]
     (s\<lparr>tlb := [], tlb_queue := []\<rparr>) =
   (None,
    s\<lparr>tlb := [(1, f 1), (2, f 2), (3, f 3), (4, f 4), (5, f 5), (6, f 6), (7, f 7),
              (8, f 8), (9, f 9), (10, f 10), (11, f 11), (12, f 12), (13, f 13), (14, f 14),
              (15, f 15), (16, f 16)],
      tlb_queue := [1, 2, 3, 4, 5, 6, 7, 8, 9, 10, 11, 12, 13, 14, 15, 16]\<rparr>) \<and>
   map_of [(1, f 1), (2, f 2), (3, f 3), (4, f 4), (5, f 5), (6, f 6), (7, f 7),
           (8, f 8), (9, f 9), (10, f 10), (11, f 11), (12, f 12), (13, f 13), (14, f 14),
           (15, f 15), (16, f 16)] (0::int) = None"
  by (simp add: update_tlb_def TLB_SIZE_def Let_def)

theorem fifo_evicts_page_zero_witness:
  "fst (update_tlb_all
     [(0, 100), (1, 101), (2, 102), (3, 103), (4, 104), (5, 105), (6, 106), (7, 107),
      (8, 108), (9, 109), (10, 110), (11, 111), (12, 112), (13, 113), (14, 114),
      (15, 115), (16, 116)]
     ((reset_simulator (\<lambda>i. 7))\<lparr>tlb := [], tlb_queue := []\<rparr>)) = None \<and>
   tlb_queue (snd (update_tlb_all
     [(0, 100), (1, 101), (2, 102), (3, 103), (4, 104), (5, 105), (6, 106), (7, 107),
      (8, 108), (9, 109), (10, 110), (11, 111), (12, 112), (13, 113), (14, 114),
      (15, 115), (16, 116)]
     ((reset_simulator (\<lambda>i. 7))\<lparr>tlb := [], tlb_queue := []\<rparr>))) =
     [1, 2, 3, 4, 5, 6, 7, 8, 9, 10, 11, 12, 13, 14, 15, 16]"
  using fifo_evicts_page_zero[of "\<lambda>p. p + 100" "reset_simulator (\<lambda>i. 7)"] by simp

text \<open>
  C1, as the code has it. No run of \<^verbatim>\<open>translate_address\<close> calls from a reset
  state gives two page numbers the same frame: the pipeline masks the page number to
  \<open>0..255\<close>, so at most \<^const>\<open>NUM_PAGES\<close> pages ever fault and the count never wraps.
\<close>

theorem no_run_aliases_a_frame:
  "\<not> (\<exists>rnd vs p q f. p \<noteq> q \<and>
        map_of (page_table (run vs (reset_simulator rnd))) p = Some f \<and>
        map_of (page_table (run vs (reset_simulator rnd))) q = Some f)"
proof
  assume "\<exists>rnd vs p q f. p \<noteq> q \<and>
        map_of (page_table (run vs (reset_simulator rnd))) p = Some f \<and>
        map_of (page_table (run vs (reset_simulator rnd))) q = Some f"
  then obtain rnd vs p q f where
    h: "p \<noteq> q" "map_of (page_table (run vs (reset_simulator rnd))) p = Some f"
       "map_of (page_table (run vs (reset_simulator rnd))) q = Some f"
    by blast
  have "sim_inv (run vs (reset_simulator rnd))" by (rule sim_inv_run[OF sim_inv_reset])
  then have "page_table_ok (page_table (run vs (reset_simulator rnd)))"
    by (simp add: sim_inv_def)
  from page_table_ok_inj[OF this map_of_SomeD[OF h(2)] map_of_SomeD[OF h(3)]] h(1)
  show False by simp
qed

text \<open>
  C1, amended. Direct calls of \<^verbatim>\<open>handle_page_fault\<close> reach the wrap-around, with a
  sequence of page numbers that \<^verbatim>\<open>translate_address\<close> cannot produce: after the
  pages \<open>0, \<dots>, 255\<close> have faulted from a reset state, frame 0 holds the bytes of
  page 0; the fault of page 257 is then given frame 0 again, the page table maps both page
  0 and page 257 to frame 0, and frame 0 holds the bytes of page 257, so that its first byte
  is 1 and no longer the 0 of page 0.
\<close>

theorem direct_faults_alias_frame_zero:
  "map_of (page_table (fault_all (py_range NUM_PAGES @ [257]) (reset_simulator rnd))) 0 = Some 0 \<and>
   map_of (page_table (fault_all (py_range NUM_PAGES @ [257]) (reset_simulator rnd))) 257 = Some 0 \<and>
   take (nat PAGE_SIZE) (main_memory (fault_all (py_range NUM_PAGES) (reset_simulator rnd))) =
     map (\<lambda>i. (0 + i) mod 256) (py_range PAGE_SIZE) \<and>
   take (nat PAGE_SIZE)
     (main_memory (fault_all (py_range NUM_PAGES @ [257]) (reset_simulator rnd))) =
     map (\<lambda>i. (257 + i) mod 256) (py_range PAGE_SIZE) \<and>
   main_memory (fault_all (py_range NUM_PAGES) (reset_simulator rnd)) ! 0 = 0 \<and>
   main_memory (fault_all (py_range NUM_PAGES @ [257]) (reset_simulator rnd)) ! 0 = 1"
proof -
  let ?s = "fault_all (map int [0..<256]) (reset_simulator rnd)"
  let ?s' = "snd (handle_page_fault 257 ?s)"
  have pr: "py_range NUM_PAGES = map int [0..<256]" by (simp add: py_range_def NUM_PAGES_eq)
  have e: "fault_all (py_range NUM_PAGES @ [257]) (reset_simulator rnd) = ?s'"
    unfolding pr by (rule fault_all_snoc)
  from faults_in_order[of 256 rnd] have
    s: "length (main_memory ?s) = nat MEMORY_SIZE"
       "page_table ?s = map (\<lambda>i. (int i, int i)) [0..<256]"
       "take 256 (main_memory ?s) = map int [0..<256]"
    by simp_all
  have fresh: "map_of (page_table ?s) 257 = None"
    unfolding s(2) by (auto simp add: map_of_eq_None_iff image_iff)
  have len: "int (length (page_table ?s)) mod NUM_PAGES = 0"
    unfolding s(2) by (simp add: NUM_PAGES_eq)
  from handle_page_fault_fresh[OF fresh s(1)] have
    h: "take (nat PAGE_SIZE) (drop (nat (0 * PAGE_SIZE)) (main_memory ?s')) =
          map (\<lambda>i. (257 + i) mod 256) (py_range PAGE_SIZE)"
       "page_table ?s' = page_table ?s @ [(257, 0)]"
    unfolding len by blast+
  have z: "(0::nat) < 256" by simp
  have "(0, 0) \<in> set (map (\<lambda>i. (int i, int i)) [0..<256])"
    using z by (simp only: set_map set_upt image_iff) force
  moreover have "distinct (map fst (map (\<lambda>i. (int i, int i)) [0..<256]))"
    by (simp add: comp_def distinct_map inj_on_def)
  ultimately have m0: "map_of (page_table ?s) 0 = Some 0"
    unfolding s(2) by (rule map_of_is_SomeI[rotated])
  have a: "map_of (page_table ?s') 0 = Some 0"
    unfolding h(2) using m0 by (simp add: map_add_def)
  have b: "map_of (page_table ?s') 257 = Some 0"
    unfolding h(2) using fresh by (simp add: map_add_def)
  have c: "take (nat PAGE_SIZE) (main_memory ?s) = map (\<lambda>i. (0 + i) mod 256) (py_range PAGE_SIZE)"
    using s(3) by (simp add: PAGE_SIZE_def py_range_def)
  have d: "take (nat PAGE_SIZE) (main_memory ?s') =
             map (\<lambda>i. (257 + i) mod 256) (py_range PAGE_SIZE)"
    using h(1) by simp
  have "take 256 (main_memory ?s) ! 0 = map int [0..<256] ! 0" unfolding s(3) ..
  then have v0: "main_memory ?s ! 0 = 0" by simp
  have "take (nat PAGE_SIZE) (main_memory ?s') ! 0 =
          map (\<lambda>i. (257 + i) mod 256) (py_range PAGE_SIZE) ! 0"
    unfolding d ..
  then have v1: "main_memory ?s' ! 0 = 1"
    by (simp add: PAGE_SIZE_def py_range_def)
  show ?thesis
    unfolding e using a b c d v0 v1 unfolding pr by blast
qed

theorem direct_faults_alias_frame_zero_witness:
  "map_of (page_table (fault_all (py_range NUM_PAGES @ [257]) (reset_simulator (\<lambda>i. 7)))) 0 =
     Some 0 \<and>
   map_of (page_table (fault_all (py_range NUM_PAGES @ [257]) (reset_simulator (\<lambda>i. 7)))) 257 =
     Some 0 \<and>
   main_memory (fault_all (py_range NUM_PAGES @ [257]) (reset_simulator (\<lambda>i. 7))) ! 0 = 1"
  using direct_faults_alias_frame_zero[of "\<lambda>i. 7"] by blast

end
